theory Spec2Isabelle
  imports Main
begin

unbundle bit_operations_syntax

section \<open>Python primitives used by \<open>ip_address_utils.py\<close>\<close>

text \<open>
  Python integers are unbounded: they are modelled as \<open>int\<close>. Strings are lists of
  characters, a character being a code point below 256. The exceptions the module can raise are the two built-in ones below:
  \<open>int()\<close> on a malformed numeral, unpacking a list of the wrong length and shifting by
  a negative count raise \<open>ValueError\<close>; indexing past the end of a list raises
  \<open>IndexError\<close>.
\<close>

datatype error = ValueError | IndexError

text \<open>\<open>s.split(sep)\<close> for a one-character separator: \<open>n\<close> separators give \<open>n + 1\<close> parts.\<close>

fun py_split :: "char \<Rightarrow> string \<Rightarrow> string list" where
  "py_split sep [] = [[]]"
| "py_split sep (c # cs) =
     (if c = sep then [] # py_split sep cs
      else (case py_split sep cs of [] \<Rightarrow> [[c]] | p # ps \<Rightarrow> (c # p) # ps))"

text \<open>\<open>sep.join(parts)\<close>.\<close>

fun py_join :: "string \<Rightarrow> string list \<Rightarrow> string" where
  "py_join sep [] = []"
| "py_join sep [p] = p"
| "py_join sep (p # q # ps) = p @ sep @ py_join sep (q # ps)"

definition is_digit :: "char \<Rightarrow> bool" where
  "is_digit c = (c \<in> set ''0123456789'')"

definition digit_val :: "char \<Rightarrow> nat" where
  "digit_val c = of_char c - 48"

definition digit_char :: "nat \<Rightarrow> char" where
  "digit_char d = ''0123456789'' ! d"

text \<open>The value of a string of decimal digits, most significant digit first.\<close>

definition digits_value :: "string \<Rightarrow> nat" where
  "digits_value ds = foldl (\<lambda>a c. 10 * a + digit_val c) 0 ds"

text \<open>
  The characters \<open>int()\<close> skips at both ends of its argument. ASCII characters are
  tested as they are, and only the codes 9 to 13 and 32 count; the separators 28 to 31 do
  not, although \<open>str.isspace\<close> holds of them. A character beyond ASCII that is Unicode
  white space is first replaced by a blank: below 256 these are the codes 133 and 160.
\<close>

definition is_space :: "char \<Rightarrow> bool" where
  "is_space c = (of_char c \<in> set [9, 10, 11, 12, 13, 32, 133, 160 :: nat])"

definition py_strip :: "string \<Rightarrow> string" where
  "py_strip s = rev (dropWhile is_space (rev (dropWhile is_space s)))"

text \<open>
  \<open>int(s)\<close> in base 10 on an ASCII string: optional surrounding whitespace, an optional
  sign, then groups of digits separated by single underscores. Leading zeros are
  accepted (\<open>int("007") == 7\<close>). \<open>None\<close> stands for the \<open>ValueError\<close> that \<open>int\<close>
  raises. No code point from 128 to 255 is a decimal digit. The interpreter's
  configurable limit on the length of a numeral is outside the model.
\<close>

definition py_int :: "string \<Rightarrow> int option" where
  "py_int s =
     (let t = py_strip s;
          neg = (t \<noteq> [] \<and> hd t = CHR ''-'');
          body = (if t \<noteq> [] \<and> (hd t = CHR ''-'' \<or> hd t = CHR ''+'') then tl t else t);
          groups = py_split (CHR ''_'') body
      in if list_all (\<lambda>g. g \<noteq> [] \<and> list_all is_digit g) groups
         then Some (if neg then - int (digits_value (concat groups))
                    else int (digits_value (concat groups)))
         else None)"

text \<open>\<open>str(n)\<close> for an integer: decimal digits without leading zeros, \<open>-\<close> in front of a
  negative number.\<close>

fun str_nat :: "nat \<Rightarrow> string" where
  "str_nat n = (if n < 10 then [digit_char n] else str_nat (n div 10) @ [digit_char (n mod 10)])"

declare str_nat.simps [simp del]

definition py_str :: "int \<Rightarrow> string" where
  "py_str i = (if i < 0 then CHR ''-'' # str_nat (nat (- i)) else str_nat (nat i))"

text \<open>\<open>a << i\<close>: a negative shift count raises \<open>ValueError\<close>.\<close>

definition shift_left :: "int \<Rightarrow> int \<Rightarrow> error + int" where
  "shift_left a i = (if i < 0 then Inl ValueError else Inr (push_bit (nat i) a))"

text \<open>\<open>sum([(1 << i) for i in r])\<close>: the list is built first, so the first negative
  count in \<open>r\<close> raises.\<close>

fun sum_shifts :: "int list \<Rightarrow> error + int" where
  "sum_shifts [] = Inr 0"
| "sum_shifts (i # r) =
     (case shift_left 1 i of
        Inl e \<Rightarrow> Inl e
      | Inr b \<Rightarrow> (case sum_shifts r of Inl e \<Rightarrow> Inl e | Inr s \<Rightarrow> Inr (b + s)))"

section \<open>AddressCodec: \<open>get_value\<close> and \<open>value_to_ip\<close>\<close>

text \<open>
  The loop of \<open>get_value\<close> over \<open>range(0, 4, 1)\<close>. At each exponent the octet is read
  from the reversed list (\<open>IndexError\<close> when the address has fewer parts), converted
  by \<open>int\<close> (\<open>ValueError\<close>) and added with weight \<open>1 << (exponent << 3)\<close>. Parts
  beyond the fourth from the right are never read.
\<close>

fun get_value_loop :: "string list \<Rightarrow> nat list \<Rightarrow> int \<Rightarrow> error + int" where
  "get_value_loop ip_octets [] ip_num_value = Inr ip_num_value"
| "get_value_loop ip_octets (exponent # rest) ip_num_value =
     (if exponent < length ip_octets then
        (case py_int (ip_octets ! exponent) of
           None \<Rightarrow> Inl ValueError
         | Some n \<Rightarrow>
             get_value_loop ip_octets rest
               (ip_num_value + n * push_bit (push_bit 3 exponent) 1))
      else Inl IndexError)"

definition get_value :: "string \<Rightarrow> error + int" where
  "get_value ip_addr =
     (let ip_octets = rev (py_split (CHR ''.'') ip_addr)
      in get_value_loop ip_octets [0, 1, 2, 3] 0)"

definition value_to_ip :: "int \<Rightarrow> string" where
  "value_to_ip v =
     (let v1 = sum_list (map (\<lambda>i. push_bit i (1::int)) [0..<8]);
          octets = map (\<lambda>i. py_str ((v AND push_bit i v1) div push_bit i 1)) [0, 8, 16, 24]
      in py_join ''.'' (rev octets))"

section \<open>CidrBlock: the address range of a CIDR string\<close>

text \<open>The source's parameter \<open>mask\<close> is written \<open>mask_len\<close> here, and the bit mask
  that \<open>get_ip_cidr_from_ips\<close> accumulates \<open>mask_bits\<close>.\<close>

text \<open>\<open>range(a, b)\<close> over Python integers.\<close>

definition py_range :: "int \<Rightarrow> int \<Rightarrow> int list" where
  "py_range a b = [a..b - 1]"

definition get_min_value :: "string \<Rightarrow> int \<Rightarrow> error + int" where
  "get_min_value prefix mask_len =
     (case get_value prefix of
        Inl e \<Rightarrow> Inl e
      | Inr ip_num_value \<Rightarrow>
          (case sum_shifts (py_range (32 - mask_len) 32) of
             Inl e \<Rightarrow> Inl e
           | Inr mask_value \<Rightarrow> Inr (ip_num_value AND mask_value)))"

text \<open>The loop \<open>for i in range(32 - mask): max_value += (1 << i)\<close>; the counts are never
  negative, so nothing raises.\<close>

definition get_max_value :: "int \<Rightarrow> int \<Rightarrow> int" where
  "get_max_value min_value mask_len =
     fold (\<lambda>i max_value. max_value + push_bit (nat i) 1) (py_range 0 (32 - mask_len)) min_value"

text \<open>
  \<open>prefix, mask = ip_cidr.split("/")\<close> raises \<open>ValueError\<close> unless there are exactly two
  parts; \<open>int(mask)\<close> is evaluated before \<open>get_min_value\<close> is entered.
\<close>

definition ip_cidr_to_ip_value_range :: "string \<Rightarrow> error + (int \<times> int)" where
  "ip_cidr_to_ip_value_range ip_cidr =
     (case py_split (CHR ''/'') ip_cidr of
        [prefix, mask_str] \<Rightarrow>
          (case py_int mask_str of
             None \<Rightarrow> Inl ValueError
           | Some m \<Rightarrow>
               (case get_min_value prefix m of
                  Inl e \<Rightarrow> Inl e
                | Inr min_value \<Rightarrow> Inr (min_value, get_max_value min_value m)))
      | _ \<Rightarrow> Inl ValueError)"

definition ip_cidr_to_ip_range :: "string \<Rightarrow> error + (string \<times> string)" where
  "ip_cidr_to_ip_range ip_cidr =
     (case ip_cidr_to_ip_value_range ip_cidr of
        Inl e \<Rightarrow> Inl e
      | Inr (min_value, max_value) \<Rightarrow> Inr (value_to_ip min_value, value_to_ip max_value))"

section \<open>RangeCover: \<open>get_ip_cidr_from_ips\<close>\<close>

text \<open>A list comprehension over a fallible function stops at the first exception.\<close>

fun map_err :: "('a \<Rightarrow> error + 'b) \<Rightarrow> 'a list \<Rightarrow> error + 'b list" where
  "map_err f [] = Inr []"
| "map_err f (x # xs) =
     (case f x of
        Inl e \<Rightarrow> Inl e
      | Inr y \<Rightarrow> (case map_err f xs of Inl e \<Rightarrow> Inl e | Inr ys \<Rightarrow> Inr (y # ys)))"

text \<open>The test of the \<open>while\<close> loop: some two values differ at bit \<open>i\<close>.\<close>

definition any_differ :: "int list \<Rightarrow> nat \<Rightarrow> bool" where
  "any_differ vals i =
     list_ex (\<lambda>(value_1, value_2). (value_1 AND push_bit i 1) \<noteq> (value_2 AND push_bit i 1))
       (List.product vals vals)"

text \<open>
  The loop \<open>while i > 0: i -= 1; if any(...): break; mask += (1 << i)\<close>, started at
  \<open>i = 32\<close>, \<open>mask = 0\<close>; it returns the final \<open>(i, mask)\<close>.
\<close>

fun cidr_scan :: "int list \<Rightarrow> nat \<Rightarrow> int \<Rightarrow> nat \<times> int" where
  "cidr_scan vals 0 mask_bits = (0, mask_bits)"
| "cidr_scan vals (Suc i) mask_bits =
     (if any_differ vals i then (i, mask_bits) else cidr_scan vals i (mask_bits + push_bit i 1))"

definition get_ip_cidr_from_ips :: "string list \<Rightarrow> error + string" where
  "get_ip_cidr_from_ips ip_addrs =
     (case map_err get_value ip_addrs of
        Inl e \<Rightarrow> Inl e
      | Inr vals \<Rightarrow>
          if list_all (\<lambda>(ip_addr_1, ip_addr_2). ip_addr_1 = ip_addr_2) (List.product vals vals)
          then (case ip_addrs of [] \<Rightarrow> Inl IndexError | a # _ \<Rightarrow> Inr (a @ ''/32''))
          else (case cidr_scan vals 32 0 of
                  (i, mask_bits) \<Rightarrow>
                    Inr (value_to_ip (mask_bits AND hd vals) @ ''/'' @ py_str (32 - (int i + 1)))))"

section \<open>IntervalMerger\<close>

text \<open>An address range is a pair of address strings: lower bound, upper bound.\<close>

type_synonym ip_range = "string \<times> string"

definition compare_ip_address_ranges :: "ip_range \<Rightarrow> ip_range \<Rightarrow> error + int" where
  "compare_ip_address_ranges ip_range_1 ip_range_2 =
     (case get_value (fst ip_range_1) of
        Inl e \<Rightarrow> Inl e
      | Inr a \<Rightarrow> (case get_value (fst ip_range_2) of Inl e \<Rightarrow> Inl e | Inr b \<Rightarrow> Inr (a - b)))"

text \<open>Both comparisons of \<open>ip_ranges_overlap\<close> read left operand first, and \<open>and\<close> does
  not evaluate its second operand when the first is false.\<close>

definition ip_ranges_overlap :: "ip_range \<Rightarrow> ip_range \<Rightarrow> error + bool" where
  "ip_ranges_overlap ip_range_1 ip_range_2 =
     (case get_value (snd ip_range_1) of
        Inl e \<Rightarrow> Inl e
      | Inr h1 \<Rightarrow>
          (case get_value (fst ip_range_2) of
             Inl e \<Rightarrow> Inl e
           | Inr l2 \<Rightarrow>
               if h1 \<ge> l2 then
                 (case get_value (snd ip_range_2) of
                    Inl e \<Rightarrow> Inl e
                  | Inr h2 \<Rightarrow>
                      (case get_value (fst ip_range_1) of
                         Inl e \<Rightarrow> Inl e
                       | Inr l1 \<Rightarrow> Inr (h2 \<ge> l1)))
               else Inr False))"

text \<open>The value of an address string that \<open>get_value\<close> accepts (0 is a placeholder
  where it raises; every use below is guarded by a successful \<open>get_value\<close>).\<close>

definition the_value :: "string \<Rightarrow> int" where
  "the_value s = (case get_value s of Inl e \<Rightarrow> 0 | Inr v \<Rightarrow> v)"

text \<open>
  \<open>sorted(ip_ranges, key=functools.cmp_to_key(compare_ip_address_ranges))\<close>. Python's
  sort is stable and asks the key objects of \<open>cmp_to_key\<close> whether
  \<open>compare_ip_address_ranges(x, y) < 0\<close>. It is modelled by the insertion sort that takes
  the ranges from left to right and puts each one in front of the first range that the
  comparator finds greater, the new range being the left operand of every comparison, as
  in the binary insertion that \<open>list.sort\<close> performs on a list shorter than 64. A list
  of fewer than two ranges is returned without any comparison. A comparison raises when
  \<open>get_value\<close> rejects a lower bound, and the sort raises at its first such comparison;
  the first comparison of all is \<open>compare_ip_address_ranges(ip_ranges[1], ip_ranges[0])\<close>.
  On longer lists the interpreter merges sorted runs: the list returned is the same (the
  comparator orders by an integer), but which of several malformed bounds is met first
  there depends on the runs.
\<close>

fun insort_cmp :: "ip_range \<Rightarrow> ip_range list \<Rightarrow> error + ip_range list" where
  "insort_cmp x [] = Inr [x]"
| "insort_cmp x (y # ys) =
     (case compare_ip_address_ranges x y of
        Inl e \<Rightarrow> Inl e
      | Inr c \<Rightarrow>
          if c < 0 then Inr (x # y # ys)
          else (case insort_cmp x ys of Inl e \<Rightarrow> Inl e | Inr zs \<Rightarrow> Inr (y # zs)))"

fun sort_loop :: "ip_range list \<Rightarrow> ip_range list \<Rightarrow> error + ip_range list" where
  "sort_loop [] sorted_part = Inr sorted_part"
| "sort_loop (x # xs) sorted_part =
     (case insort_cmp x sorted_part of
        Inl e \<Rightarrow> Inl e
      | Inr longer \<Rightarrow> sort_loop xs longer)"

definition sort_ip_address_ranges :: "ip_range list \<Rightarrow> error + ip_range list" where
  "sort_ip_address_ranges ip_ranges = sort_loop ip_ranges []"

definition combine_ip_ranges :: "ip_range \<Rightarrow> ip_range \<Rightarrow> error + ip_range" where
  "combine_ip_ranges ip_range_1 ip_range_2 =
     (case get_value (fst ip_range_1) of Inl e \<Rightarrow> Inl e | Inr l1 \<Rightarrow>
     (case get_value (fst ip_range_2) of Inl e \<Rightarrow> Inl e | Inr l2 \<Rightarrow>
     (case get_value (snd ip_range_1) of Inl e \<Rightarrow> Inl e | Inr h1 \<Rightarrow>
     (case get_value (snd ip_range_2) of Inl e \<Rightarrow> Inl e | Inr h2 \<Rightarrow>
        Inr (if l1 < l2 then fst ip_range_1 else fst ip_range_2,
             if h1 > h2 then snd ip_range_1 else snd ip_range_2)))))"

text \<open>
  The sweep of \<open>consolidate_ip_ranges\<close> over the sorted ranges; \<open>consolidated_ranges\<close> is
  the list being built, extended and replaced at its end as in the source.
\<close>

fun consolidate_loop :: "ip_range list \<Rightarrow> ip_range list \<Rightarrow> error + ip_range list" where
  "consolidate_loop [] consolidated_ranges = Inr consolidated_ranges"
| "consolidate_loop (ip_range # rest) consolidated_ranges =
     (if consolidated_ranges = [] then consolidate_loop rest (consolidated_ranges @ [ip_range])
      else
        (case ip_ranges_overlap ip_range (last consolidated_ranges) of
           Inl e \<Rightarrow> Inl e
         | Inr True \<Rightarrow>
             (case combine_ip_ranges ip_range (last consolidated_ranges) of
                Inl e \<Rightarrow> Inl e
              | Inr c \<Rightarrow> consolidate_loop rest (butlast consolidated_ranges @ [c]))
         | Inr False \<Rightarrow> consolidate_loop rest (consolidated_ranges @ [ip_range])))"

definition consolidate_ip_ranges :: "ip_range list \<Rightarrow> error + ip_range list" where
  "consolidate_ip_ranges ip_ranges =
     (case sort_ip_address_ranges ip_ranges of
        Inl e \<Rightarrow> Inl e
      | Inr sorted_ranges \<Rightarrow> consolidate_loop sorted_ranges [])"

section \<open>ConsolidationPipeline\<close>

text \<open>The progress line printed between the steps is not part of the result.\<close>

definition consolidate_ip_cidrs :: "string list \<Rightarrow> error + string list" where
  "consolidate_ip_cidrs ip_cidrs =
     (case map_err ip_cidr_to_ip_range ip_cidrs of
        Inl e \<Rightarrow> Inl e
      | Inr ip_ranges \<Rightarrow>
          (case consolidate_ip_ranges ip_ranges of
             Inl e \<Rightarrow> Inl e
           | Inr consolidated_ranges \<Rightarrow>
               map_err (\<lambda>ip_range. get_ip_cidr_from_ips [fst ip_range, snd ip_range])
                 consolidated_ranges))"

section \<open>Vocabulary of the properties\<close>

text \<open>
  A dotted quad: exactly four parts between dots, each a non-empty string of decimal
  digits with value at most 255. Leading zeros are allowed (\<open>010.0.0.1\<close>); a
  canonical dotted quad has none.
\<close>

definition valid_octet :: "string \<Rightarrow> bool" where
  "valid_octet s = (s \<noteq> [] \<and> list_all is_digit s \<and> digits_value s \<le> 255)"

definition valid_dotted_quad :: "string \<Rightarrow> bool" where
  "valid_dotted_quad s =
     (let parts = py_split (CHR ''.'') s in length parts = 4 \<and> list_all valid_octet parts)"

definition canonical_octet :: "string \<Rightarrow> bool" where
  "canonical_octet s = (valid_octet s \<and> (length s = 1 \<or> hd s \<noteq> CHR ''0''))"

definition canonical_dotted_quad :: "string \<Rightarrow> bool" where
  "canonical_dotted_quad s =
     (let parts = py_split (CHR ''.'') s in length parts = 4 \<and> list_all canonical_octet parts)"

text \<open>The \<open>k\<close>-th octet of an address value, counted from the least significant one.\<close>

definition octet :: "int \<Rightarrow> nat \<Rightarrow> nat" where
  "octet v k = nat ((v div 2 ^ (8 * k)) mod 256)"

text \<open>
  The address value of a dotted quad in the words of the specification: the sum of
  \<open>octet[i] * 256^(3 - i)\<close>. It is written without \<open>get_value\<close> or any other function of
  the module, and the properties of ranges below are stated with it: they say which
  addresses the code's results denote, not only that the code agrees with itself.
\<close>

definition spec_address_value :: "string \<Rightarrow> int" where
  "spec_address_value s =
     (case py_split (CHR ''.'') s of
        [a, b, c, d] \<Rightarrow>
          int (digits_value a) * 256 ^ 3 + int (digits_value b) * 256 ^ 2
            + int (digits_value c) * 256 + int (digits_value d)
      | _ \<Rightarrow> 0)"

text \<open>The numeric bounds of a range, and a range of two dotted quads whose lower value
  is not above the upper one.\<close>

definition range_low :: "ip_range \<Rightarrow> int" where
  "range_low r = spec_address_value (fst r)"

definition range_high :: "ip_range \<Rightarrow> int" where
  "range_high r = spec_address_value (snd r)"

definition valid_range :: "ip_range \<Rightarrow> bool" where
  "valid_range r =
     (valid_dotted_quad (fst r) \<and> valid_dotted_quad (snd r) \<and> range_low r \<le> range_high r)"

text \<open>An address value lies in a range; the values a list of ranges covers; a range
  lies inside another.\<close>

definition covers :: "ip_range \<Rightarrow> int \<Rightarrow> bool" where
  "covers r v = (range_low r \<le> v \<and> v \<le> range_high r)"

definition covered :: "ip_range list \<Rightarrow> int set" where
  "covered rs = {v. \<exists>r \<in> set rs. covers r v}"

definition within :: "ip_range \<Rightarrow> ip_range \<Rightarrow> bool" where
  "within r s = (range_low s \<le> range_low r \<and> range_high r \<le> range_high s)"

text \<open>A range holds two neighbouring address values, \<open>v\<close> and \<open>v + 1\<close>.\<close>

definition spans :: "ip_range \<Rightarrow> int \<Rightarrow> bool" where
  "spans r v = (covers r v \<and> covers r (v + 1))"

text \<open>Every step from an address value of the range \<open>out\<close> to the next one inside it is
  spanned by a single range of the list \<open>rs\<close>: \<open>out\<close> is welded from ranges of \<open>rs\<close>
  that share addresses, not put together from ranges that only touch.\<close>

definition welded :: "ip_range list \<Rightarrow> ip_range \<Rightarrow> bool" where
  "welded rs out =
     (\<forall>v. range_low out \<le> v \<and> v < range_high out \<longrightarrow> (\<exists>r \<in> set rs. spans r v))"

text \<open>Consecutive ranges of a list are strictly apart: each upper bound is below the
  next lower bound.\<close>

fun separated :: "ip_range list \<Rightarrow> bool" where
  "separated [] = True"
| "separated [a] = True"
| "separated (a # b # rs) = (range_high a < range_low b \<and> separated (b # rs))"

text \<open>A well-formed CIDR string: a dotted quad, a slash, and a mask written in decimal
  digits with a value from 0 to 32.\<close>

definition valid_cidr :: "string \<Rightarrow> bool" where
  "valid_cidr s =
     (case py_split (CHR ''/'') s of
        [prefix, mask_str] \<Rightarrow>
          valid_dotted_quad prefix \<and> mask_str \<noteq> [] \<and> list_all is_digit mask_str
            \<and> digits_value mask_str \<le> 32
      | _ \<Rightarrow> False)"

text \<open>
  The address range of a CIDR string in the words of the specification: the prefix value
  with its low \<open>32 - mask\<close> bits cleared, up to that value plus \<open>2^(32 - mask) - 1\<close>. It is
  written with \<open>spec_address_value\<close> and plain arithmetic, without any function of the
  module. A string that is not of the form prefix/mask denotes the empty range.
\<close>

definition spec_cidr_range :: "string \<Rightarrow> int \<times> int" where
  "spec_cidr_range c =
     (case py_split (CHR ''/'') c of
        [prefix, mask_str] \<Rightarrow>
          (let block_size = 2 ^ (32 - digits_value mask_str);
               low = spec_address_value prefix - spec_address_value prefix mod block_size
           in (low, low + block_size - 1))
      | _ \<Rightarrow> (1, 0))"

text \<open>An address value lies in the range a CIDR string denotes; the values a list of
  CIDR strings covers.\<close>

definition cidr_covers :: "string \<Rightarrow> int \<Rightarrow> bool" where
  "cidr_covers c v = (case spec_cidr_range c of (lo, hi) \<Rightarrow> lo \<le> v \<and> v \<le> hi)"

definition cidrs_covered :: "string list \<Rightarrow> int set" where
  "cidrs_covered cs = {v. \<exists>c \<in> set cs. cidr_covers c v}"

text \<open>A range whose bounds are the canonical strings of the first and last address of an
  aligned block of \<open>2^k\<close> addresses inside the 32-bit address space.\<close>

definition block_range :: "ip_range \<Rightarrow> bool" where
  "block_range r =
     (\<exists>k q. k \<le> 32 \<and> 0 \<le> 2 ^ k * q \<and> 2 ^ k * q + 2 ^ k - 1 < 2 ^ 32
        \<and> r = (value_to_ip (2 ^ k * q), value_to_ip (2 ^ k * q + 2 ^ k - 1)))"

section \<open>Lemmas about the Python primitives\<close>

subsection \<open>Digits\<close>

lemma is_digit_cases:
  "is_digit c \<longleftrightarrow> c = CHR ''0'' \<or> c = CHR ''1'' \<or> c = CHR ''2'' \<or> c = CHR ''3'' \<or> c = CHR ''4''
     \<or> c = CHR ''5'' \<or> c = CHR ''6'' \<or> c = CHR ''7'' \<or> c = CHR ''8'' \<or> c = CHR ''9''"
  by (auto simp: is_digit_def)

lemma below_ten: "(d::nat) < 10 \<longleftrightarrow> d = 0 \<or> d = 1 \<or> d = 2 \<or> d = 3 \<or> d = 4 \<or> d = 5 \<or> d = 6 \<or> d = 7 \<or> d = 8 \<or> d = 9"
  by arith

lemma digit_char_digit: "d < 10 \<Longrightarrow> is_digit (digit_char d)"
  unfolding below_ten by (auto simp: digit_char_def is_digit_def)

lemma digit_val_digit_char: "d < 10 \<Longrightarrow> digit_val (digit_char d) = d"
  unfolding below_ten by (auto simp: digit_char_def digit_val_def)

lemma digit_val_less: "is_digit c \<Longrightarrow> digit_val c < 10"
  unfolding is_digit_cases by (auto simp: digit_val_def)

lemma digit_char_digit_val: "is_digit c \<Longrightarrow> digit_char (digit_val c) = c"
  unfolding is_digit_cases by (auto simp: digit_val_def digit_char_def)

lemma digit_not_other:
  assumes "is_digit c"
  shows "\<not> is_space c" "c \<noteq> CHR ''-''" "c \<noteq> CHR ''+''" "c \<noteq> CHR ''_''" "c \<noteq> CHR ''.''" "c \<noteq> CHR ''/''"
  using assms unfolding is_digit_cases by (auto simp: is_space_def)

lemma digit_val_zero: "is_digit c \<Longrightarrow> digit_val c = 0 \<longleftrightarrow> c = CHR ''0''"
  unfolding is_digit_cases by (auto simp: digit_val_def)

lemma digits_value_snoc: "digits_value (ds @ [c]) = 10 * digits_value ds + digit_val c"
  by (simp add: digits_value_def)

lemma digits_value_Nil: "digits_value [] = 0"
  by (simp add: digits_value_def)

subsection \<open>\<open>str\<close> of a natural number\<close>

lemma str_nat_digits: "list_all is_digit (str_nat n)"
proof (induction n rule: str_nat.induct)
  case (1 n)
  show ?case
  proof (cases "n < 10")
    case True
    then show ?thesis by (simp add: str_nat.simps[of n] digit_char_digit)
  next
    case False
    then show ?thesis using 1 by (simp add: str_nat.simps[of n] digit_char_digit)
  qed
qed

lemma str_nat_not_Nil: "str_nat n \<noteq> []"
  by (subst str_nat.simps) simp

lemma digits_value_str_nat: "digits_value (str_nat n) = n"
proof (induction n rule: str_nat.induct)
  case (1 n)
  show ?case
  proof (cases "n < 10")
    case True
    then show ?thesis
      by (simp add: str_nat.simps[of n] digits_value_def digit_val_digit_char)
  next
    case False
    then show ?thesis using 1
      by (simp add: str_nat.simps[of n] digits_value_snoc digit_val_digit_char)
  qed
qed

lemma digits_value_pos:
  assumes "list_all is_digit s" "s \<noteq> []" "hd s \<noteq> CHR ''0''"
  shows "0 < digits_value s"
  using assms
proof (induction s rule: rev_induct)
  case Nil
  then show ?case by simp
next
  case (snoc c s)
  show ?case
  proof (cases "s = []")
    case True
    then have "is_digit c" "c \<noteq> CHR ''0''" using snoc.prems by auto
    then have "digit_val c \<noteq> 0" by (simp add: digit_val_zero)
    then show ?thesis using True by (simp add: digits_value_def)
  next
    case False
    then have "0 < digits_value s" using snoc by simp
    then show ?thesis by (simp add: digits_value_snoc)
  qed
qed

lemma str_nat_digits_value:
  assumes "list_all is_digit s" "s \<noteq> []" "length s = 1 \<or> hd s \<noteq> CHR ''0''"
  shows "str_nat (digits_value s) = s"
  using assms
proof (induction s rule: rev_induct)
  case Nil
  then show ?case by simp
next
  case (snoc c s)
  have c: "is_digit c" using snoc.prems(1) by simp
  show ?case
  proof (cases "s = []")
    case True
    then show ?thesis using c
      by (simp add: digits_value_def str_nat.simps[of "digit_val c"] digit_val_less digit_char_digit_val)
  next
    case False
    then have hd: "hd s \<noteq> CHR ''0''" using snoc.prems(3) by simp
    have ds: "list_all is_digit s" using snoc.prems(1) by simp
    have pos: "0 < digits_value s" by (rule digits_value_pos[OF ds False hd])
    have ih: "str_nat (digits_value s) = s" using snoc.IH ds False hd by simp
    have "\<not> 10 * digits_value s + digit_val c < 10" using pos by simp
    moreover have "(10 * digits_value s + digit_val c) div 10 = digits_value s"
      using digit_val_less[OF c] by simp
    moreover have "(10 * digits_value s + digit_val c) mod 10 = digit_val c"
      using digit_val_less[OF c] by simp
    ultimately show ?thesis
      by (simp add: digits_value_snoc str_nat.simps[of "10 * digits_value s + digit_val c"] ih
          digit_char_digit_val[OF c])
  qed
qed

subsection \<open>\<open>split\<close> and \<open>join\<close>\<close>

lemma py_split_not_Nil: "py_split sep s \<noteq> []"
  by (induction s) (auto split: list.splits)

lemma py_split_none: "sep \<notin> set s \<Longrightarrow> py_split sep s = [s]"
  by (induction s) auto

lemma py_split_append: "sep \<notin> set a \<Longrightarrow> py_split sep (a @ sep # b) = a # py_split sep b"
  by (induction a) auto

lemma py_join_split: "py_join [sep] (py_split sep s) = s"
proof (induction s)
  case Nil
  then show ?case by simp
next
  case (Cons c s)
  show ?case
  proof (cases "c = sep")
    case True
    then show ?thesis using Cons py_split_not_Nil[of sep s]
      by (cases "py_split sep s") auto
  next
    case False
    obtain p ps where ps: "py_split sep s = p # ps"
      using py_split_not_Nil[of sep s] by (cases "py_split sep s") auto
    then show ?thesis using Cons False by (cases ps) auto
  qed
qed

lemma py_split_part_free: "p \<in> set (py_split sep s) \<Longrightarrow> sep \<notin> set p"
proof (induction s arbitrary: p)
  case Nil
  then show ?case by simp
next
  case (Cons c s)
  obtain q qs where qs: "py_split sep s = q # qs"
    using py_split_not_Nil[of sep s] by (cases "py_split sep s") auto
  show ?case
  proof (cases "c = sep")
    case True
    then show ?thesis using Cons by auto
  next
    case False
    then have "p = c # q \<or> p \<in> set qs" using Cons.prems qs by simp
    then show ?thesis using Cons.IH[of q] Cons.IH[of p] qs False by auto
  qed
qed

lemma py_split_join4:
  assumes "sep \<notin> set a" "sep \<notin> set b" "sep \<notin> set c" "sep \<notin> set d"
  shows "py_split sep (py_join [sep] [a, b, c, d]) = [a, b, c, d]"
  using assms by (simp add: py_split_append py_split_none)

subsection \<open>\<open>int\<close> of a string of digits\<close>

lemma dropWhile_id: "xs = [] \<or> \<not> P (hd xs) \<Longrightarrow> dropWhile P xs = xs"
  by (cases xs) auto

lemma py_strip_id:
  assumes "s \<noteq> []" "\<not> is_space (hd s)" "\<not> is_space (last s)"
  shows "py_strip s = s"
proof -
  have "dropWhile is_space s = s" using assms by (simp add: dropWhile_id)
  moreover have "dropWhile is_space (rev s) = rev s"
    using assms by (simp add: dropWhile_id hd_rev)
  ultimately show ?thesis by (simp add: py_strip_def)
qed

lemma py_int_digits:
  assumes "s \<noteq> []" "list_all is_digit s"
  shows "py_int s = Some (int (digits_value s))"
proof -
  have all: "\<forall>c\<in>set s. is_digit c" using assms(2) by (simp add: list_all_iff)
  have h: "is_digit (hd s)" and l: "is_digit (last s)"
    using all assms(1) by auto
  have strip: "py_strip s = s"
    by (rule py_strip_id) (use assms(1) h l digit_not_other(1) in auto)
  have sign: "hd s \<noteq> CHR ''-''" "hd s \<noteq> CHR ''+''"
    using h digit_not_other by auto
  have "CHR ''_'' \<notin> set s" using all digit_not_other(4) by blast
  then have grp: "py_split (CHR ''_'') s = [s]" by (rule py_split_none)
  show ?thesis
    using assms sign by (simp add: py_int_def strip grp)
qed

lemma py_int_str_nat: "py_int (str_nat n) = Some (int n)"
  by (simp add: py_int_digits str_nat_not_Nil str_nat_digits digits_value_str_nat)

lemma py_int_valid_octet: "valid_octet s \<Longrightarrow> py_int s = Some (int (digits_value s))"
  by (simp add: valid_octet_def py_int_digits)

subsection \<open>\<open>get_value\<close> on four parts\<close>

lemma get_value_four:
  assumes "py_split (CHR ''.'') s = [a, b, c, d]"
    "py_int a = Some x3" "py_int b = Some x2" "py_int c = Some x1" "py_int d = Some x0"
  shows "get_value s = Inr (x3 * 2 ^ 24 + x2 * 2 ^ 16 + x1 * 2 ^ 8 + x0)"
  using assms by (simp add: get_value_def push_bit_eq_mult)

subsection \<open>The octets \<open>value_to_ip\<close> prints\<close>

lemma extract_octet: "(v AND push_bit i (255::int)) div push_bit i 1 = (v div 2 ^ i) mod 256"
proof -
  have "(255::int) = mask 8" by (simp add: mask_eq_exp_minus_1)
  then have "v AND push_bit i (255::int) = push_bit i (take_bit 8 (drop_bit i v))"
    by (simp add: bit_eq_iff bit_simps) (use bit_imp_possible_bit in auto)
  then have "(v AND push_bit i (255::int)) div push_bit i 1 = take_bit 8 (drop_bit i v)"
    by (simp add: push_bit_eq_mult)
  then show ?thesis by (simp add: take_bit_eq_mod drop_bit_eq_div)
qed

lemma py_str_nonneg: "0 \<le> i \<Longrightarrow> py_str i = str_nat (nat i)"
  by (simp add: py_str_def)

lemma value_to_ip_octets:
  "value_to_ip v = py_join ''.'' [str_nat (octet v 3), str_nat (octet v 2), str_nat (octet v 1), str_nat (octet v 0)]"
proof -
  have v1: "sum_list (map (\<lambda>i. push_bit i (1::int)) [0..<8]) = 255"
    by (simp add: upt_rec push_bit_eq_mult)
  have s: "py_str ((v AND push_bit i 255) div push_bit i 1) = str_nat (nat ((v div 2 ^ i) mod 256))" for i
    unfolding extract_octet by (rule py_str_nonneg) simp
  have m: "map (\<lambda>i. py_str ((v AND push_bit i 255) div push_bit i 1)) [0, 8, 16, 24]
      = map (\<lambda>i. str_nat (nat ((v div 2 ^ i) mod 256))) [0, 8, 16, 24]"
    by (simp only: s)
  show ?thesis
    unfolding value_to_ip_def v1 Let_def m octet_def by simp
qed

lemma octet_less: "octet v k < 256"
  by (simp add: octet_def nat_less_iff)

lemma octets_sum:
  "int (octet v 3) * 2 ^ 24 + int (octet v 2) * 2 ^ 16 + int (octet v 1) * 2 ^ 8 + int (octet v 0) = v mod 2 ^ 32"
proof -
  define A B C D where "A = v div 2 ^ 24 mod 256" and "B = v div 2 ^ 16 mod 256"
    and "C = v div 2 ^ 8 mod 256" and "D = v mod 256"
  define r24 r16 where "r24 = v mod 2 ^ 24" and "r16 = v mod 2 ^ 16"
  have a: "v mod 2 ^ 32 = 2 ^ 24 * A + r24"
    unfolding A_def r24_def using zmod_zmult2_eq[of 256 v "2 ^ 24"] by simp
  have b: "r24 = 2 ^ 16 * B + r16"
    unfolding B_def r24_def r16_def using zmod_zmult2_eq[of 256 v "2 ^ 16"] by simp
  have c: "r16 = 2 ^ 8 * C + D"
    unfolding C_def D_def r16_def using zmod_zmult2_eq[of 256 v "2 ^ 8"] by simp
  have o: "int (octet v 3) = A" "int (octet v 2) = B" "int (octet v 1) = C" "int (octet v 0) = D"
    unfolding octet_def A_def B_def C_def D_def by simp_all
  show ?thesis unfolding o a b c by (simp add: algebra_simps)
qed

lemma digits_no_sep:
  assumes "list_all is_digit s"
  shows "CHR ''.'' \<notin> set s" "CHR ''/'' \<notin> set s"
  using assms digit_not_other(5,6) by (auto simp: list_all_iff)

lemma get_value_value_to_ip: "get_value (value_to_ip v) = Inr (v mod 2 ^ 32)"
proof -
  have "py_split (CHR ''.'') (value_to_ip v)
     = [str_nat (octet v 3), str_nat (octet v 2), str_nat (octet v 1), str_nat (octet v 0)]"
    unfolding value_to_ip_octets
    using py_split_join4[of "CHR ''.''" "str_nat (octet v 3)" "str_nat (octet v 2)"
      "str_nat (octet v 1)" "str_nat (octet v 0)"] digits_no_sep(1)[OF str_nat_digits]
    by simp
  then have "get_value (value_to_ip v) =
      Inr (int (octet v 3) * 2 ^ 24 + int (octet v 2) * 2 ^ 16 + int (octet v 1) * 2 ^ 8 + int (octet v 0))"
    by (rule get_value_four) (rule py_int_str_nat)+
  then show ?thesis by (simp only: octets_sum)
qed

lemma value_to_ip_mod: "value_to_ip (v mod 2 ^ 32) = value_to_ip v"
proof -
  have "octet (v mod 2 ^ 32) k = octet v k" if "k < 4" for k
  proof -
    have "8 * k + 8 \<le> 32" using that by simp
    have "take_bit 8 (drop_bit (8 * k) (take_bit 32 v)) = take_bit 8 (drop_bit (8 * k) v)"
      using \<open>8 * k + 8 \<le> 32\<close> by (simp add: bit_eq_iff bit_simps) auto
    then show ?thesis by (simp add: octet_def take_bit_eq_mod drop_bit_eq_div)
  qed
  then show ?thesis by (simp add: value_to_ip_octets)
qed

lemma hd_str_nat: "0 < n \<Longrightarrow> hd (str_nat n) \<noteq> CHR ''0''"
proof (induction n rule: str_nat.induct)
  case (1 n)
  show ?case
  proof (cases "n < 10")
    case True
    have "digit_val (digit_char n) \<noteq> digit_val (CHR ''0'')"
      using True "1.prems" by (simp add: digit_val_digit_char) (simp add: digit_val_def)
    then have "digit_char n \<noteq> CHR ''0''" by auto
    then show ?thesis using True by (simp add: str_nat.simps[of n])
  next
    case False
    then have "hd (str_nat (n div 10)) \<noteq> CHR ''0''" using 1 by simp
    then show ?thesis using False by (simp add: str_nat.simps[of n] str_nat_not_Nil)
  qed
qed

lemma canonical_octet_str_nat:
  assumes "n < 256"
  shows "canonical_octet (str_nat n)"
proof -
  have "length (str_nat n) = 1 \<or> hd (str_nat n) \<noteq> CHR ''0''"
  proof (cases "n = 0")
    case True
    then show ?thesis by (simp add: str_nat.simps[of 0])
  next
    case False
    then show ?thesis using hd_str_nat by simp
  qed
  then show ?thesis using assms
    by (simp add: canonical_octet_def valid_octet_def str_nat_not_Nil str_nat_digits digits_value_str_nat)
qed

lemma py_split_value_to_ip:
  "py_split (CHR ''.'') (value_to_ip v)
     = [str_nat (octet v 3), str_nat (octet v 2), str_nat (octet v 1), str_nat (octet v 0)]"
  unfolding value_to_ip_octets
  using py_split_join4[of "CHR ''.''" "str_nat (octet v 3)" "str_nat (octet v 2)"
      "str_nat (octet v 1)" "str_nat (octet v 0)"] digits_no_sep(1)[OF str_nat_digits]
  by simp

lemma value_to_ip_canonical: "canonical_dotted_quad (value_to_ip v)"
  by (simp add: canonical_dotted_quad_def py_split_value_to_ip canonical_octet_str_nat octet_less)

subsection \<open>The round trips\<close>

lemma octet_of_sum:
  assumes "d0 < 256" "d1 < 256" "d2 < 256" "d3 < 256"
  defines "V \<equiv> int d3 * 2 ^ 24 + int d2 * 2 ^ 16 + int d1 * 2 ^ 8 + int d0"
  shows "octet V 0 = d0" "octet V 1 = d1" "octet V 2 = d2" "octet V 3 = d3"
proof -
  define W1 W2 where "W1 = int d3 * 2 ^ 16 + int d2 * 2 ^ 8 + int d1" and "W2 = int d3 * 2 ^ 8 + int d2"
  have V: "V = 256 * W1 + int d0" and W1: "W1 = 256 * W2 + int d1" and W2: "W2 = 256 * int d3 + int d2"
    unfolding V_def W1_def W2_def by simp_all
  have m0: "V mod 256 = int d0" and q0: "V div 256 = W1"
    using int_mod_pos_eq[OF V] int_div_pos_eq[OF V] assms(1) by simp_all
  have m1: "W1 mod 256 = int d1" and q1: "W1 div 256 = W2"
    using int_mod_pos_eq[OF W1] int_div_pos_eq[OF W1] assms(2) by simp_all
  have m2: "W2 mod 256 = int d2" and q2: "W2 div 256 = int d3"
    using int_mod_pos_eq[OF W2] int_div_pos_eq[OF W2] assms(3) by simp_all
  have m3: "int d3 mod 256 = int d3" using assms(4) by simp
  have d16: "V div 65536 = W2"
    using zdiv_zmult2_eq[of 256 V 256] q0 q1 by simp
  have d24: "V div 16777216 = int d3"
    using zdiv_zmult2_eq[of 256 V 65536] d16 q2 by simp
  show "octet V 0 = d0" by (simp add: octet_def m0)
  show "octet V 1 = d1" by (simp add: octet_def q0 m1)
  show "octet V 2 = d2" by (simp add: octet_def d16 m2)
  show "octet V 3 = d3" by (simp add: octet_def d24 m3)
qed

lemma canonical_octetD:
  assumes "canonical_octet p"
  shows "py_int p = Some (int (digits_value p))" "digits_value p < 256" "str_nat (digits_value p) = p"
  using assms
  by (auto simp: canonical_octet_def valid_octet_def py_int_digits intro: str_nat_digits_value)

lemma length4: "length xs = 4 \<Longrightarrow> \<exists>a b c d. xs = [a, b, c, d]"
  by (cases xs; cases "tl xs"; cases "tl (tl xs)"; cases "tl (tl (tl xs))") auto

lemma get_value_canonical:
  assumes "canonical_dotted_quad a"
  shows "\<exists>v. get_value a = Inr v \<and> 0 \<le> v \<and> v < 2 ^ 32 \<and> value_to_ip v = a"
proof -
  obtain p3 p2 p1 p0 where parts: "py_split (CHR ''.'') a = [p3, p2, p1, p0]"
    using assms length4 unfolding canonical_dotted_quad_def Let_def by blast
  then have c: "canonical_octet p3" "canonical_octet p2" "canonical_octet p1" "canonical_octet p0"
    using assms by (simp_all add: canonical_dotted_quad_def)
  define V where "V = int (digits_value p3) * 2 ^ 24 + int (digits_value p2) * 2 ^ 16
      + int (digits_value p1) * 2 ^ 8 + int (digits_value p0)"
  have gv: "get_value a = Inr V"
    unfolding V_def
    by (rule get_value_four[OF parts]) (simp_all add: canonical_octetD(1) c)
  have o: "octet V 0 = digits_value p0" "octet V 1 = digits_value p1"
    "octet V 2 = digits_value p2" "octet V 3 = digits_value p3"
    unfolding V_def
    by (rule octet_of_sum; simp add: canonical_octetD(2) c)+
  have "value_to_ip V = py_join ''.'' [p3, p2, p1, p0]"
    by (simp only: value_to_ip_octets o canonical_octetD(3) c)
  also have "\<dots> = a" using py_join_split[of "CHR ''.''" a] parts by simp
  finally have vi: "value_to_ip V = a" .
  have "V mod 2 ^ 32 = V"
    using get_value_value_to_ip[of V] gv vi by simp
  then have "0 \<le> V" "V < 2 ^ 32"
    using pos_mod_sign[of "2 ^ 32" V] pos_mod_bound[of "2 ^ 32" V] by simp_all
  then show ?thesis using gv vi by blast
qed

lemma canonical_imp_valid: "canonical_dotted_quad a \<Longrightarrow> valid_dotted_quad a"
  by (auto simp: canonical_dotted_quad_def valid_dotted_quad_def canonical_octet_def list_all_iff Let_def)

text \<open>
  C7, as the code has it. \<open>value_to_ip (get_value a) = a\<close> for every canonical dotted
  quad \<open>a\<close> (four decimal octets from 0 to 255 written without leading zeros), and
  \<open>get_value (value_to_ip v) = v\<close> for every \<open>v\<close> from 0 to \<open>2^32 - 1\<close>. An octet
  written with a leading zero is read by \<open>int\<close> and printed back without it.
\<close>

theorem round_trip:
  "(canonical_dotted_quad a \<longrightarrow> (\<exists>v. get_value a = Inr v \<and> value_to_ip v = a))
   \<and> (0 \<le> w \<and> w \<le> 2 ^ 32 - 1 \<longrightarrow> get_value (value_to_ip w) = Inr w)"
proof (intro conjI impI)
  assume "canonical_dotted_quad a"
  then show "\<exists>v. get_value a = Inr v \<and> value_to_ip v = a"
    using get_value_canonical by blast
next
  assume "0 \<le> w \<and> w \<le> 2 ^ 32 - 1"
  then have "w mod 2 ^ 32 = w" by simp
  then show "get_value (value_to_ip w) = Inr w"
    using get_value_value_to_ip[of w] by simp
qed

theorem round_trip_witness:
  "canonical_dotted_quad ''192.168.1.10''
   \<and> (\<exists>v. get_value ''192.168.1.10'' = Inr v \<and> value_to_ip v = ''192.168.1.10'')
   \<and> get_value (value_to_ip 4294967295) = Inr 4294967295"
proof -
  have h: "canonical_dotted_quad ''192.168.1.10''" by code_simp
  show ?thesis using h round_trip[of "''192.168.1.10''" 4294967295] by simp
qed

text \<open>A dotted quad with a leading zero does not survive the round trip.\<close>

theorem round_trip_counterexample:
  "valid_dotted_quad ''01.2.3.4'' \<and> get_value ''01.2.3.4'' = Inr 16909060
   \<and> value_to_ip 16909060 \<noteq> ''01.2.3.4''"
  by code_simp

text \<open>
  C10. \<open>value_to_ip\<close> is total: for every integer \<open>v\<close>, in particular every natural number,
  it returns a dotted quad of four octets from 0 to 255, the same one as for
  \<open>v mod 2^32\<close>, and \<open>get_value\<close> reads it back as \<open>v mod 2^32\<close>.
\<close>

theorem value_to_ip_total:
  "valid_dotted_quad (value_to_ip v) \<and> value_to_ip v = value_to_ip (v mod 2 ^ 32)
   \<and> get_value (value_to_ip v) = Inr (v mod 2 ^ 32)"
  using canonical_imp_valid[OF value_to_ip_canonical[of v]] value_to_ip_mod[of v]
    get_value_value_to_ip[of v] by simp

section \<open>The range of a CIDR string\<close>

lemma sum_shifts_upto:
  assumes "0 \<le> a" "a \<le> b + 1"
  shows "sum_shifts [a..b] = Inr (2 ^ nat (b + 1) - 2 ^ nat a)"
  using assms
proof (induction "nat (b + 1 - a)" arbitrary: a)
  case 0
  then have "a = b + 1" by simp
  then show ?case by simp
next
  case (Suc n)
  then have le: "a \<le> b" by linarith
  have ih: "sum_shifts [a + 1..b] = Inr (2 ^ nat (b + 1) - 2 ^ nat (a + 1))"
    by (rule Suc.hyps(1)) (use Suc le in auto)
  have "nat (a + 1) = Suc (nat a)" using Suc.prems(1) by simp
  then have "(2::int) ^ nat (a + 1) = 2 * 2 ^ nat a" by simp
  then show ?case
    using le Suc.prems(1) ih by (simp add: upto_rec1[of a b] shift_left_def push_bit_eq_mult)
qed

lemma sum_shifts_negative:
  assumes "a < 0" "a \<le> b"
  shows "sum_shifts [a..b] = Inl ValueError"
  using assms by (simp add: upto_rec1[of a b] shift_left_def)

lemma mask_value_cases:
  "sum_shifts (py_range (32 - m) 32) =
     (if 32 < m then Inl ValueError else if m < 0 then Inr 0 else Inr (2 ^ 32 - 2 ^ nat (32 - m)))"
proof -
  consider "32 < m" | "m < 0" | "0 \<le> m" "m \<le> 32" by linarith
  then show ?thesis
  proof cases
    case 1
    then show ?thesis using sum_shifts_negative[of "32 - m" 31] by (simp add: py_range_def)
  next
    case 2
    then show ?thesis by (simp add: py_range_def)
  next
    case 3
    then show ?thesis using sum_shifts_upto[of "32 - m" 31] by (simp add: py_range_def)
  qed
qed

lemma fold_shifts:
  "fold (\<lambda>i x. x + push_bit (nat i) 1) [0..int n - 1] (lo::int) = lo + 2 ^ n - 1"
proof (induction n)
  case 0
  then show ?case by simp
next
  case (Suc n)
  have "[0..int (Suc n) - 1] = [0..int n - 1] @ [int n]"
    using upto_rec2[of 0 "int n"] by simp
  then show ?case using Suc by (simp add: push_bit_eq_mult)
qed

lemma get_max_value_eq: "get_max_value lo m = lo + 2 ^ nat (32 - m) - 1"
proof (cases "m \<le> 32")
  case True
  then have "32 - m = int (nat (32 - m))" by simp
  then have "py_range 0 (32 - m) = [0..int (nat (32 - m)) - 1]" by (simp add: py_range_def)
  then show ?thesis unfolding get_max_value_def using fold_shifts[of "nat (32 - m)" lo] by simp
next
  case False
  then show ?thesis by (simp add: get_max_value_def py_range_def)
qed

lemma and_high_mask:
  assumes "0 \<le> (v::int)" "v < 2 ^ 32" "k \<le> 32"
  shows "v AND (2 ^ 32 - 2 ^ k) = 2 ^ k * (v div 2 ^ k)"
proof -
  have "(2::int) ^ 32 = 2 ^ k * 2 ^ (32 - k)"
    using assms(3) by (simp flip: power_add)
  then have m: "(2::int) ^ 32 - 2 ^ k = push_bit k (mask (32 - k))"
    by (simp add: push_bit_eq_mult mask_eq_exp_minus_1 algebra_simps)
  have tb: "take_bit 32 v = v" using assms(1,2) by (simp add: take_bit_int_eq_self)
  have "v AND push_bit k (mask (32 - k)) = push_bit k (drop_bit k (take_bit 32 v))"
    using assms(3) by (simp add: bit_eq_iff bit_simps) auto
  then show ?thesis unfolding m tb by (simp add: push_bit_eq_mult drop_bit_eq_div)
qed

lemma valid_octetD:
  assumes "valid_octet p"
  shows "py_int p = Some (int (digits_value p))" "digits_value p < 256"
  using assms by (auto simp: valid_octet_def py_int_digits)

lemma get_value_spec:
  assumes "valid_dotted_quad a"
  shows "get_value a = Inr (spec_address_value a)"
    "0 \<le> spec_address_value a" "spec_address_value a < 2 ^ 32"
proof -
  obtain p3 p2 p1 p0 where parts: "py_split (CHR ''.'') a = [p3, p2, p1, p0]"
    using assms length4 unfolding valid_dotted_quad_def Let_def by blast
  then have c: "valid_octet p3" "valid_octet p2" "valid_octet p1" "valid_octet p0"
    using assms by (simp_all add: valid_dotted_quad_def)
  define d3 d2 d1 d0 where "d3 = int (digits_value p3)" and "d2 = int (digits_value p2)"
    and "d1 = int (digits_value p1)" and "d0 = int (digits_value p0)"
  have sv: "spec_address_value a = d3 * 2 ^ 24 + d2 * 2 ^ 16 + d1 * 2 ^ 8 + d0"
    unfolding spec_address_value_def parts d3_def d2_def d1_def d0_def by simp
  have gv: "get_value a = Inr (d3 * 2 ^ 24 + d2 * 2 ^ 16 + d1 * 2 ^ 8 + d0)"
    unfolding d3_def d2_def d1_def d0_def
    by (rule get_value_four[OF parts]) (simp_all add: valid_octetD(1) c)
  have b: "0 \<le> d3" "d3 < 256" "0 \<le> d2" "d2 < 256" "0 \<le> d1" "d1 < 256" "0 \<le> d0" "d0 < 256"
    unfolding d3_def d2_def d1_def d0_def using valid_octetD(2) c by simp_all
  show "get_value a = Inr (spec_address_value a)" unfolding sv by (rule gv)
  show "0 \<le> spec_address_value a" unfolding sv using b by simp
  show "spec_address_value a < 2 ^ 32" unfolding sv using b by simp
qed

lemma get_value_valid:
  assumes "valid_dotted_quad a"
  shows "\<exists>v. get_value a = Inr v \<and> 0 \<le> v \<and> v < 2 ^ 32"
  using get_value_spec[OF assms] by blast

lemma valid_dotted_quad_no_slash:
  assumes "valid_dotted_quad a"
  shows "CHR ''/'' \<notin> set a"
proof
  assume "CHR ''/'' \<in> set a"
  then have "CHR ''/'' \<in> set (py_join ''.'' (py_split (CHR ''.'') a))"
    by (simp add: py_join_split)
  moreover obtain p3 p2 p1 p0 where parts: "py_split (CHR ''.'') a = [p3, p2, p1, p0]"
    using assms length4 unfolding valid_dotted_quad_def Let_def by blast
  ultimately have "CHR ''/'' \<in> set p3 \<union> set p2 \<union> set p1 \<union> set p0" by auto
  moreover have "list_all is_digit p3" "list_all is_digit p2" "list_all is_digit p1" "list_all is_digit p0"
    using assms parts by (simp_all add: valid_dotted_quad_def valid_octet_def)
  ultimately show False using digits_no_sep(2) by blast
qed

text \<open>What \<open>ip_cidr_to_ip_value_range\<close> returns once the string has split in two and the
  mask has been read.\<close>

lemma value_range_split:
  assumes "py_split (CHR ''/'') s = [p, ms]" "py_int ms = Some m"
  shows "ip_cidr_to_ip_value_range s =
     (case get_value p of
        Inl e \<Rightarrow> Inl e
      | Inr v \<Rightarrow>
          if 32 < m then Inl ValueError
          else if m < 0 then Inr (0, 2 ^ nat (32 - m) - 1)
          else Inr (v AND (2 ^ 32 - 2 ^ nat (32 - m)),
                    (v AND (2 ^ 32 - 2 ^ nat (32 - m))) + 2 ^ nat (32 - m) - 1))"
  using assms
  by (simp add: ip_cidr_to_ip_value_range_def get_min_value_def mask_value_cases get_max_value_eq
      split: sum.splits)

lemma value_range_block:
  assumes "py_split (CHR ''/'') s = [p, ms]" "py_int ms = Some m" "0 \<le> m" "m \<le> 32"
    "get_value p = Inr v" "0 \<le> v" "v < 2 ^ 32"
  shows "ip_cidr_to_ip_value_range s =
     Inr (2 ^ nat (32 - m) * (v div 2 ^ nat (32 - m)),
          2 ^ nat (32 - m) * (v div 2 ^ nat (32 - m)) + 2 ^ nat (32 - m) - 1)"
proof -
  have "nat (32 - m) \<le> 32" using assms(3) by simp
  then have "v AND (2 ^ 32 - 2 ^ nat (32 - m)) = 2 ^ nat (32 - m) * (v div 2 ^ nat (32 - m))"
    by (rule and_high_mask[OF assms(6,7)])
  then show ?thesis
    using value_range_split[OF assms(1,2)] assms(3,4,5) by simp
qed

lemma block_bounds:
  assumes "0 \<le> (v::int)" "v < 2 ^ 32" "k \<le> 32"
  shows "0 \<le> 2 ^ k * (v div 2 ^ k)" "2 ^ k * (v div 2 ^ k) \<le> v" "v \<le> 2 ^ k * (v div 2 ^ k) + 2 ^ k - 1"
    "2 ^ k * (v div 2 ^ k) + 2 ^ k - 1 < 2 ^ 32"
proof -
  have p: "(0::int) < 2 ^ k" by simp
  have e: "v = 2 ^ k * (v div 2 ^ k) + v mod 2 ^ k" by simp
  have m: "0 \<le> v mod 2 ^ k" "v mod 2 ^ k < 2 ^ k" using p by simp_all
  show "0 \<le> 2 ^ k * (v div 2 ^ k)" using assms(1) by (simp add: pos_imp_zdiv_nonneg_iff)
  show "2 ^ k * (v div 2 ^ k) \<le> v" using e m by linarith
  show "v \<le> 2 ^ k * (v div 2 ^ k) + 2 ^ k - 1" using e m by linarith
  have le: "2 ^ k * (v div 2 ^ k) \<le> v" using e m by linarith
  have pw: "(2::int) ^ 32 = 2 ^ k * 2 ^ (32 - k)" using assms(3) by (simp flip: power_add)
  have "v div 2 ^ k < 2 ^ (32 - k)"
  proof (rule ccontr)
    assume "\<not> v div 2 ^ k < 2 ^ (32 - k)"
    then have "(2::int) ^ k * 2 ^ (32 - k) \<le> 2 ^ k * (v div 2 ^ k)"
      using p by (simp only: mult_le_cancel_left_pos not_less)
    then show False using le assms(2) pw by linarith
  qed
  then have "v div 2 ^ k + 1 \<le> 2 ^ (32 - k)" by simp
  then have "2 ^ k * (v div 2 ^ k + 1) \<le> (2::int) ^ k * 2 ^ (32 - k)"
    using p by (simp only: mult_le_cancel_left_pos)
  then show "2 ^ k * (v div 2 ^ k) + 2 ^ k - 1 < 2 ^ 32"
    unfolding pw by (simp add: algebra_simps)
qed


lemma valid_cidrD:
  assumes "valid_cidr s"
  shows "\<exists>p ms m v. py_split (CHR ''/'') s = [p, ms] \<and> py_int ms = Some m \<and> 0 \<le> m \<and> m \<le> 32
           \<and> m = int (digits_value ms)
           \<and> valid_dotted_quad p \<and> get_value p = Inr v \<and> v = spec_address_value p
           \<and> 0 \<le> v \<and> v < 2 ^ 32"
proof -
  obtain p ms where sp: "py_split (CHR ''/'') s = [p, ms]"
    using assms by (auto simp: valid_cidr_def split: list.splits)
  then have vp: "valid_dotted_quad p" and ms: "ms \<noteq> []" "list_all is_digit ms" "digits_value ms \<le> 32"
    using assms by (simp_all add: valid_cidr_def)
  have m: "py_int ms = Some (int (digits_value ms))" by (rule py_int_digits[OF ms(1,2)])
  have b: "0 \<le> int (digits_value ms)" "int (digits_value ms) \<le> 32" using ms(3) by simp_all
  show ?thesis using sp m b vp get_value_spec[OF vp] by blast
qed

text \<open>On a well-formed CIDR string the code returns the range the specification gives.\<close>

lemma value_range_spec:
  assumes "valid_cidr s"
  shows "ip_cidr_to_ip_value_range s = Inr (spec_cidr_range s)"
proof -
  obtain p ms m v where d: "py_split (CHR ''/'') s = [p, ms]" "py_int ms = Some m"
    "0 \<le> m" "m \<le> 32" "m = int (digits_value ms)" "get_value p = Inr v"
    "v = spec_address_value p" "0 \<le> v" "v < 2 ^ 32"
    using valid_cidrD[OF assms] by blast
  have k: "nat (32 - m) = 32 - digits_value ms" unfolding d(5) by simp
  have r: "ip_cidr_to_ip_value_range s =
     Inr (2 ^ nat (32 - m) * (v div 2 ^ nat (32 - m)),
          2 ^ nat (32 - m) * (v div 2 ^ nat (32 - m)) + 2 ^ nat (32 - m) - 1)"
    by (rule value_range_block[OF d(1,2,3,4,6,8,9)])
  have sv: "spec_address_value p = v" using d(7) by simp
  have sr: "spec_cidr_range s
      = (v - v mod 2 ^ (32 - digits_value ms),
         v - v mod 2 ^ (32 - digits_value ms) + 2 ^ (32 - digits_value ms) - 1)"
    unfolding spec_cidr_range_def d(1) by (simp add: Let_def sv)
  have "2 ^ (32 - digits_value ms) * (v div 2 ^ (32 - digits_value ms))
      = v - v mod 2 ^ (32 - digits_value ms)"
    by (simp add: minus_mod_eq_mult_div)
  then show ?thesis unfolding r k sr by simp
qed

text \<open>
  C9, as the code has it. Once a string has split at its slash and \<open>int\<close> has read the
  mask: a mask above 32 raises (the shift count \<open>32 - mask\<close> is negative, unless
  \<open>get_value\<close> has already rejected the prefix); a mask below 0 raises nothing, the
  range that \<open>get_min_value\<close> sums over is empty and the result is \<open>(0, 2^(32 - mask) - 1)\<close>; and for a
  dotted quad with a mask from 0 to 32 the result \<open>(min, max)\<close> has
  \<open>0 \<le> min \<le> max \<le> 2^32 - 1\<close>.
\<close>

theorem ip_cidr_to_ip_value_range_masks:
  "(py_split (CHR ''/'') s1 = [p1, ms1] \<and> py_int ms1 = Some m1 \<and> 32 < m1
      \<longrightarrow> isl (ip_cidr_to_ip_value_range s1))
   \<and> (py_split (CHR ''/'') s2 = [p2, ms2] \<and> py_int ms2 = Some m2 \<and> m2 < 0 \<and> get_value p2 = Inr v
      \<longrightarrow> ip_cidr_to_ip_value_range s2 = Inr (0, 2 ^ nat (32 - m2) - 1))
   \<and> (valid_cidr s3
      \<longrightarrow> (\<exists>lo hi. ip_cidr_to_ip_value_range s3 = Inr (lo, hi) \<and> 0 \<le> lo \<and> lo \<le> hi \<and> hi \<le> 2 ^ 32 - 1))"
proof (intro conjI impI)
  assume "py_split (CHR ''/'') s1 = [p1, ms1] \<and> py_int ms1 = Some m1 \<and> 32 < m1"
  then show "isl (ip_cidr_to_ip_value_range s1)"
    using value_range_split[of s1 p1 ms1 m1] by (simp split: sum.splits)
next
  assume "py_split (CHR ''/'') s2 = [p2, ms2] \<and> py_int ms2 = Some m2 \<and> m2 < 0 \<and> get_value p2 = Inr v"
  then show "ip_cidr_to_ip_value_range s2 = Inr (0, 2 ^ nat (32 - m2) - 1)"
    using value_range_split[of s2 p2 ms2 m2] by simp
next
  assume "valid_cidr s3"
  then obtain p ms m w where d: "py_split (CHR ''/'') s3 = [p, ms]" "py_int ms = Some m"
    "0 \<le> m" "m \<le> 32" "get_value p = Inr w" "0 \<le> w" "w < 2 ^ 32"
    using valid_cidrD by blast
  define k where "k = nat (32 - m)"
  have k: "k \<le> 32" using d(3) by (simp add: k_def)
  have r: "ip_cidr_to_ip_value_range s3 = Inr (2 ^ k * (w div 2 ^ k), 2 ^ k * (w div 2 ^ k) + 2 ^ k - 1)"
    unfolding k_def by (rule value_range_block[OF d])
  note b = block_bounds[OF d(6,7) k]
  have "2 ^ k * (w div 2 ^ k) \<le> 2 ^ k * (w div 2 ^ k) + 2 ^ k - 1" using b(2,3) by linarith
  moreover have "2 ^ k * (w div 2 ^ k) + 2 ^ k - 1 \<le> 2 ^ 32 - 1" using b(4) by linarith
  ultimately show "\<exists>lo hi. ip_cidr_to_ip_value_range s3 = Inr (lo, hi) \<and> 0 \<le> lo \<and> lo \<le> hi \<and> hi \<le> 2 ^ 32 - 1"
    using r b(1) by blast
qed

theorem ip_cidr_to_ip_value_range_masks_witness:
  "py_split (CHR ''/'') ''10.0.0.5/33'' = [''10.0.0.5'', ''33''] \<and> py_int ''33'' = Some 33
   \<and> isl (ip_cidr_to_ip_value_range ''10.0.0.5/33'')
   \<and> py_split (CHR ''/'') ''10.0.0.5/-1'' = [''10.0.0.5'', ''-1''] \<and> py_int ''-1'' = Some (- 1)
   \<and> get_value ''10.0.0.5'' = Inr 167772165
   \<and> ip_cidr_to_ip_value_range ''10.0.0.5/-1'' = Inr (0, 2 ^ 33 - 1)
   \<and> valid_cidr ''192.168.1.77/24''
   \<and> (\<exists>lo hi. ip_cidr_to_ip_value_range ''192.168.1.77/24'' = Inr (lo, hi) \<and> 0 \<le> lo \<and> lo \<le> hi \<and> hi \<le> 2 ^ 32 - 1)"
proof -
  have h1: "py_split (CHR ''/'') ''10.0.0.5/33'' = [''10.0.0.5'', ''33'']" "py_int ''33'' = Some 33"
    by code_simp+
  have h2: "py_split (CHR ''/'') ''10.0.0.5/-1'' = [''10.0.0.5'', ''-1'']" "py_int ''-1'' = Some (- 1)"
    "get_value ''10.0.0.5'' = Inr 167772165"
    by code_simp+
  have h3: "valid_cidr ''192.168.1.77/24''" by code_simp
  show ?thesis
    using h1 h2 h3
      ip_cidr_to_ip_value_range_masks[of "''10.0.0.5/33''" "''10.0.0.5''" "''33''" 33
        "''10.0.0.5/-1''" "''10.0.0.5''" "''-1''" "- 1" 167772165 "''192.168.1.77/24''"]
    by simp
qed

text \<open>A negative mask is not rejected.\<close>

theorem negative_mask_counterexample:
  "py_split (CHR ''/'') ''10.0.0.5/-1'' = [''10.0.0.5'', ''-1''] \<and> py_int ''-1'' = Some (- 1)
   \<and> ip_cidr_to_ip_value_range ''10.0.0.5/-1'' = Inr (0, 8589934591)"
  by code_simp

section \<open>The covering block of \<open>get_ip_cidr_from_ips\<close>\<close>

lemma and_bit: "(a::int) AND push_bit i 1 = (if bit a i then 2 ^ i else 0)"
proof (cases "bit a i")
  case True
  have "a AND 2 ^ i = 2 ^ i"
  proof (rule bit_eqI)
    fix n show "bit (a AND 2 ^ i) n = bit ((2::int) ^ i) n"
      using True by (auto simp: bit_and_iff bit_exp_iff)
  qed
  then show ?thesis using True by simp
next
  case False
  then show ?thesis by (simp add: and_exp_eq_0_iff_not_bit)
qed

lemma any_differ_iff:
  "any_differ vals i \<longleftrightarrow> (\<exists>a\<in>set vals. \<exists>b\<in>set vals. bit a i \<noteq> bit b i)"
  unfolding any_differ_def list_ex_iff and_bit by auto

lemma all_equal_iff:
  "list_all (\<lambda>(a, b). a = b) (List.product vals vals) \<longleftrightarrow> (\<forall>a\<in>set vals. \<forall>b\<in>set vals. a = b)"
  unfolding list_all_iff by auto


lemma cidr_scan_spec:
  assumes "cidr_scan vals n mb = (i, mb')"
  shows "(i < n \<and> any_differ vals i \<and> (\<forall>j. i < j \<and> j < n \<longrightarrow> \<not> any_differ vals j)
            \<and> mb' = mb + 2 ^ n - 2 ^ Suc i)
         \<or> (i = 0 \<and> (\<forall>j. j < n \<longrightarrow> \<not> any_differ vals j) \<and> mb' = mb + 2 ^ n - 1)"
  using assms
proof (induction n arbitrary: mb)
  case 0
  then show ?case by simp
next
  case (Suc n)
  show ?case
  proof (cases "any_differ vals n")
    case True
    then show ?thesis using Suc.prems by auto
  next
    case False
    then have "cidr_scan vals n (mb + 2 ^ n) = (i, mb')"
      using Suc.prems by (simp add: push_bit_eq_mult)
    from Suc.IH[OF this] show ?thesis
    proof
      assume a: "i < n \<and> any_differ vals i \<and> (\<forall>j. i < j \<and> j < n \<longrightarrow> \<not> any_differ vals j)
            \<and> mb' = mb + 2 ^ n + 2 ^ n - 2 ^ Suc i"
      then have "\<forall>j. i < j \<and> j < Suc n \<longrightarrow> \<not> any_differ vals j"
        using False less_Suc_eq by auto
      then show ?thesis using a by simp
    next
      assume a: "i = 0 \<and> (\<forall>j. j < n \<longrightarrow> \<not> any_differ vals j) \<and> mb' = mb + 2 ^ n + 2 ^ n - 1"
      then have "\<forall>j. j < Suc n \<longrightarrow> \<not> any_differ vals j"
        using False less_Suc_eq by auto
      then show ?thesis using a by simp
    qed
  qed
qed

lemma bit_above: "0 \<le> (v::int) \<Longrightarrow> v < 2 ^ 32 \<Longrightarrow> 32 \<le> j \<Longrightarrow> \<not> bit v j"
proof -
  assume a: "0 \<le> v" "v < 2 ^ 32" "32 \<le> j"
  have "take_bit 32 v = v" using a by (simp add: take_bit_int_eq_self)
  then have "bit v j = bit (take_bit 32 v) j" by simp
  then show "\<not> bit v j" using a(3) by (simp add: bit_take_bit_iff)
qed

lemma same_upper_bits:
  assumes "0 \<le> (a::int)" "a < 2 ^ 32" "0 \<le> (b::int)" "b < 2 ^ 32"
    "\<forall>j. k \<le> j \<and> j < 32 \<longrightarrow> bit a j = bit b j"
  shows "a div 2 ^ k = b div 2 ^ k"
proof -
  have "drop_bit k a = drop_bit k b"
  proof (rule bit_eqI)
    fix n
    show "bit (drop_bit k a) n = bit (drop_bit k b) n"
    proof (cases "k + n < 32")
      case True
      then show ?thesis using assms(5) by (simp add: bit_drop_bit_eq add.commute)
    next
      case False
      then show ?thesis
        using bit_above[OF assms(1,2), of "k + n"] bit_above[OF assms(3,4), of "k + n"]
        by (simp add: bit_drop_bit_eq add.commute)
    qed
  qed
  then show ?thesis by (simp add: drop_bit_eq_div)
qed

lemma same_div_same_bit:
  assumes "(a::int) div 2 ^ k = b div 2 ^ k" "k \<le> i"
  shows "bit a i = bit b i"
proof -
  have "bit (drop_bit k a) (i - k) = bit (drop_bit k b) (i - k)"
    using assms(1) by (simp add: drop_bit_eq_div)
  then show ?thesis using assms(2) by (simp add: bit_drop_bit_eq)
qed

text \<open>A block of \<open>2^k\<close> addresses that starts at a multiple of \<open>2^k\<close> holds exactly the
  values with the same quotient by \<open>2^k\<close>.\<close>

lemma in_block_iff:
  fixes x q :: int
  shows "2 ^ k * q \<le> x \<and> x \<le> 2 ^ k * q + 2 ^ k - 1 \<longleftrightarrow> x div 2 ^ k = q"
proof
  assume a: "2 ^ k * q \<le> x \<and> x \<le> 2 ^ k * q + 2 ^ k - 1"
  define r where "r = x - 2 ^ k * q"
  have "x = 2 ^ k * q + r" "0 \<le> r" "r < 2 ^ k" using a by (simp_all add: r_def)
  then show "x div 2 ^ k = q" using int_div_pos_eq by blast
next
  assume a: "x div 2 ^ k = q"
  define r where "r = x mod 2 ^ k"
  have e: "2 ^ k * q + r = x" unfolding r_def a[symmetric] by (rule mult_div_mod_eq)
  have m: "0 \<le> r" "r < 2 ^ k" unfolding r_def by simp_all
  show "2 ^ k * q \<le> x \<and> x \<le> 2 ^ k * q + 2 ^ k - 1"
    using e m by linarith
qed

lemma valid_value:
  assumes "valid_dotted_quad a"
  shows "get_value a = Inr (the_value a)" "0 \<le> the_value a" "the_value a < 2 ^ 32"
  using get_value_valid[OF assms] by (auto simp: the_value_def)

lemma map_err_map:
  assumes "\<forall>x\<in>set xs. f x = Inr (g x)"
  shows "map_err f xs = Inr (map g xs)"
  using assms by (induction xs) auto

lemma map_err_get_value:
  assumes "\<forall>a\<in>set A. valid_dotted_quad a"
  shows "map_err get_value A = Inr (map the_value A)"
  by (rule map_err_map) (use assms valid_value(1) in blast)

lemma cover_equal:
  assumes "A \<noteq> []" "map_err get_value A = Inr vals" "\<forall>a\<in>set vals. \<forall>b\<in>set vals. a = b"
  shows "get_ip_cidr_from_ips A = Inr (hd A @ ''/32'')"
  using assms by (cases A) (simp_all add: get_ip_cidr_from_ips_def all_equal_iff del: map_err.simps)

lemma all_bits_equal:
  assumes "0 \<le> (a::int)" "a < 2 ^ 32" "0 \<le> (b::int)" "b < 2 ^ 32"
    "\<forall>j. j < 32 \<longrightarrow> bit a j = bit b j"
  shows "a = b"
  using same_upper_bits[OF assms(1-4), of 0] assms(5) by simp

lemma cover_differ:
  assumes "map_err get_value A = Inr vals" "\<not> (\<forall>a\<in>set vals. \<forall>b\<in>set vals. a = b)"
    "\<forall>v\<in>set vals. 0 \<le> v \<and> v < 2 ^ 32"
  shows "\<exists>i<32. get_ip_cidr_from_ips A
            = Inr (value_to_ip (2 ^ Suc i * (hd vals div 2 ^ Suc i)) @ ''/'' @ str_nat (31 - i))
          \<and> (\<forall>v\<in>set vals. v div 2 ^ Suc i = hd vals div 2 ^ Suc i)
          \<and> any_differ vals i"
proof -
  obtain i mb where sc: "cidr_scan vals 32 0 = (i, mb)" by (cases "cidr_scan vals 32 0")
  have ne: "vals \<noteq> []" using assms(2) by auto
  then have hd: "hd vals \<in> set vals" by simp
  have "\<not> (\<forall>j. j < 32 \<longrightarrow> \<not> any_differ vals j)"
  proof
    assume n: "\<forall>j. j < 32 \<longrightarrow> \<not> any_differ vals j"
    have "a = b" if "a \<in> set vals" "b \<in> set vals" for a b
    proof (rule all_bits_equal)
      show "0 \<le> a" "a < 2 ^ 32" "0 \<le> b" "b < 2 ^ 32" using assms(3) that by auto
      show "\<forall>j. j < 32 \<longrightarrow> bit a j = bit b j"
        using n that unfolding any_differ_iff by blast
    qed
    then show False using assms(2) by blast
  qed
  then have s: "i < 32" "any_differ vals i" "\<forall>j. i < j \<and> j < 32 \<longrightarrow> \<not> any_differ vals j"
    "mb = 2 ^ 32 - 2 ^ Suc i"
    using cidr_scan_spec[OF sc] by auto
  have same: "v div 2 ^ Suc i = hd vals div 2 ^ Suc i" if "v \<in> set vals" for v
  proof (rule same_upper_bits)
    show "0 \<le> v" "v < 2 ^ 32" "0 \<le> hd vals" "hd vals < 2 ^ 32" using assms(3) that hd by auto
    show "\<forall>j. Suc i \<le> j \<and> j < 32 \<longrightarrow> bit v j = bit (hd vals) j"
      using s(3) that hd unfolding any_differ_iff by (metis Suc_le_lessD)
  qed
  have "hd vals AND (2 ^ 32 - 2 ^ Suc i) = 2 ^ Suc i * (hd vals div 2 ^ Suc i)"
    by (rule and_high_mask) (use assms(3) hd s(1) in auto)
  then have pre: "mb AND hd vals = 2 ^ Suc i * (hd vals div 2 ^ Suc i)"
    unfolding s(4) by (simp only: and.commute)
  have str: "py_str (32 - (int i + 1)) = str_nat (31 - i)"
    using s(1) by (simp add: py_str_def nat_diff_distrib')
  have "get_ip_cidr_from_ips A
      = Inr (value_to_ip (2 ^ Suc i * (hd vals div 2 ^ Suc i)) @ ''/'' @ str_nat (31 - i))"
    unfolding get_ip_cidr_from_ips_def assms(1) all_equal_iff
    using assms(2) by (simp only: sum.case if_False sc prod.case pre str)
  then show ?thesis using s(1,2) same by blast
qed

lemma split_cidr:
  assumes "CHR ''/'' \<notin> set p" "CHR ''/'' \<notin> set ms"
  shows "py_split (CHR ''/'') (p @ ''/'' @ ms) = [p, ms]"
  using assms by (simp add: py_split_append py_split_none)

lemma parse_back:
  assumes "0 \<le> P" "P < 2 ^ 32" "n \<le> 32"
  shows "py_split (CHR ''/'') (value_to_ip P @ ''/'' @ str_nat n) = [value_to_ip P, str_nat n]"
    "ip_cidr_to_ip_value_range (value_to_ip P @ ''/'' @ str_nat n)
      = Inr (2 ^ (32 - n) * (P div 2 ^ (32 - n)), 2 ^ (32 - n) * (P div 2 ^ (32 - n)) + 2 ^ (32 - n) - 1)"
proof -
  have "CHR ''/'' \<notin> set (value_to_ip P)"
    by (rule valid_dotted_quad_no_slash) (rule canonical_imp_valid, rule value_to_ip_canonical)
  moreover have "CHR ''/'' \<notin> set (str_nat n)"
    by (rule digits_no_sep(2)) (rule str_nat_digits)
  ultimately show sp: "py_split (CHR ''/'') (value_to_ip P @ ''/'' @ str_nat n) = [value_to_ip P, str_nat n]"
    by (rule split_cidr)
  have gv: "get_value (value_to_ip P) = Inr P"
    using get_value_value_to_ip[of P] assms(1,2) by simp
  have k: "nat (32 - int n) = 32 - n" using assms(3) by simp
  show "ip_cidr_to_ip_value_range (value_to_ip P @ ''/'' @ str_nat n)
      = Inr (2 ^ (32 - n) * (P div 2 ^ (32 - n)), 2 ^ (32 - n) * (P div 2 ^ (32 - n)) + 2 ^ (32 - n) - 1)"
    using value_range_block[OF sp py_int_str_nat _ _ gv assms(1,2)] assms(3) unfolding k by simp
qed

lemma parse_back_32:
  assumes "valid_dotted_quad a"
  shows "py_split (CHR ''/'') (a @ ''/32'') = [a, ''32'']"
    "ip_cidr_to_ip_value_range (a @ ''/32'') = Inr (the_value a, the_value a)"
proof -
  have "CHR ''/'' \<notin> set ''32''" by simp
  then have "py_split (CHR ''/'') (a @ ''/'' @ ''32'') = [a, ''32'']"
    by (rule split_cidr[OF valid_dotted_quad_no_slash[OF assms]])
  then show sp: "py_split (CHR ''/'') (a @ ''/32'') = [a, ''32'']" by simp
  have i: "py_int ''32'' = Some 32" by code_simp
  show "ip_cidr_to_ip_value_range (a @ ''/32'') = Inr (the_value a, the_value a)"
    using value_range_block[OF sp i _ _ valid_value[OF assms]] by simp
qed


lemma cover_summary:
  assumes "A \<noteq> []" "\<forall>a\<in>set A. valid_dotted_quad a"
  shows "\<exists>k q cidr p ms. k \<le> 32 \<and> get_ip_cidr_from_ips A = Inr cidr
           \<and> py_split (CHR ''/'') cidr = [p, ms] \<and> py_int ms = Some (32 - int k)
           \<and> valid_dotted_quad p
           \<and> ms \<noteq> [] \<and> list_all is_digit ms \<and> digits_value ms = 32 - k
           \<and> ip_cidr_to_ip_value_range cidr = Inr (2 ^ k * q, 2 ^ k * q + 2 ^ k - 1)
           \<and> (\<forall>a\<in>set A. the_value a div 2 ^ k = q)
           \<and> ((\<forall>a\<in>set A. \<forall>b\<in>set A. the_value a = the_value b) \<longrightarrow> cidr = hd A @ ''/32'')
           \<and> (k = 0 \<or> (cidr = value_to_ip (2 ^ k * q) @ ''/'' @ str_nat (32 - k)
                        \<and> q = the_value (hd A) div 2 ^ k
                        \<and> (\<exists>x\<in>set A. \<exists>y\<in>set A. bit (the_value x) (k - 1) \<noteq> bit (the_value y) (k - 1))))"
proof -
  let ?vals = "map the_value A"
  have me: "map_err get_value A = Inr ?vals" by (rule map_err_get_value[OF assms(2)])
  have hdA: "hd A \<in> set A" using assms(1) by simp
  have vh: "valid_dotted_quad (hd A)" using assms(2) hdA by blast
  show ?thesis
  proof (cases "\<forall>a\<in>set A. \<forall>b\<in>set A. the_value a = the_value b")
    case True
    have eq: "\<forall>a\<in>set A. the_value a = the_value (hd A)" using True hdA by blast
    have True': "\<forall>a\<in>set ?vals. \<forall>b\<in>set ?vals. a = b"
      unfolding set_map using True by blast
    have c: "get_ip_cidr_from_ips A = Inr (hd A @ ''/32'')"
      by (rule cover_equal[OF assms(1) me True'])
    have i: "py_int ''32'' = Some (32 - int 0)" by code_simp
    have r: "ip_cidr_to_ip_value_range (hd A @ ''/32'')
        = Inr (2 ^ 0 * the_value (hd A), 2 ^ 0 * the_value (hd A) + 2 ^ 0 - 1)"
      using parse_back_32(2)[OF vh] by simp
    have d: "\<forall>a\<in>set A. the_value a div 2 ^ 0 = the_value (hd A)"
    proof
      fix a assume "a \<in> set A"
      then have "the_value a = the_value (hd A)" using eq by blast
      then show "the_value a div 2 ^ 0 = the_value (hd A)" by simp
    qed
    have z: "(0::nat) \<le> 32" by simp
    have m32: "''32'' \<noteq> []" "list_all is_digit ''32''" "digits_value ''32'' = 32 - 0"
      by code_simp+
    have inst: "(0::nat) \<le> 32 \<and> get_ip_cidr_from_ips A = Inr (hd A @ ''/32'')
           \<and> py_split (CHR ''/'') (hd A @ ''/32'') = [hd A, ''32''] \<and> py_int ''32'' = Some (32 - int 0)
           \<and> valid_dotted_quad (hd A)
           \<and> ''32'' \<noteq> [] \<and> list_all is_digit ''32'' \<and> digits_value ''32'' = 32 - 0
           \<and> ip_cidr_to_ip_value_range (hd A @ ''/32'')
                = Inr (2 ^ 0 * the_value (hd A), 2 ^ 0 * the_value (hd A) + 2 ^ 0 - 1)
           \<and> (\<forall>a\<in>set A. the_value a div 2 ^ 0 = the_value (hd A))
           \<and> ((\<forall>a\<in>set A. \<forall>b\<in>set A. the_value a = the_value b) \<longrightarrow> hd A @ ''/32'' = hd A @ ''/32'')
           \<and> ((0::nat) = 0 \<or> (hd A @ ''/32'' = value_to_ip (2 ^ 0 * the_value (hd A)) @ ''/'' @ str_nat (32 - 0)
                        \<and> the_value (hd A) = the_value (hd A) div 2 ^ 0
                        \<and> (\<exists>x\<in>set A. \<exists>y\<in>set A. bit (the_value x) (0 - 1) \<noteq> bit (the_value y) (0 - 1))))"
      by (intro conjI impI disjI1 refl z c parse_back_32(1)[OF vh] i r d vh m32)
    show ?thesis
      by (rule exI[of _ 0], rule exI[of _ "the_value (hd A)"], rule exI[of _ "hd A @ ''/32''"],
          rule exI[of _ "hd A"], rule exI[of _ "''32''"]) (rule inst)
  next
    case False
    have False': "\<not> (\<forall>a\<in>set ?vals. \<forall>b\<in>set ?vals. a = b)"
      unfolding set_map using False by blast
    have rng: "\<forall>v\<in>set ?vals. 0 \<le> v \<and> v < 2 ^ 32"
      using assms(2) valid_value(2,3) by auto
    have hv: "hd ?vals = the_value (hd A)" using assms(1) by (simp add: hd_map)
    obtain i where i: "i < 32"
      "get_ip_cidr_from_ips A
         = Inr (value_to_ip (2 ^ Suc i * (the_value (hd A) div 2 ^ Suc i)) @ ''/'' @ str_nat (31 - i))"
      "\<forall>v\<in>set ?vals. v div 2 ^ Suc i = the_value (hd A) div 2 ^ Suc i"
      "any_differ ?vals i"
      using cover_differ[OF me False' rng] unfolding hv by blast
    define k where "k = Suc i"
    define q where "q = the_value (hd A) div 2 ^ k"
    have k: "k \<le> 32" "31 - i = 32 - k" "32 - (32 - k) = k" "k - 1 = i" "k \<noteq> 0"
      using i(1) by (simp_all add: k_def)
    note b = block_bounds[OF valid_value(2,3)[OF vh] k(1)]
    have P: "0 \<le> 2 ^ k * q" "2 ^ k * q < 2 ^ 32"
      unfolding q_def using b(1,2) valid_value(3)[OF vh] by linarith+
    have n: "32 - k \<le> 32" by simp
    have qq: "(2 ^ k * q) div 2 ^ k = q" by simp
    have c: "get_ip_cidr_from_ips A = Inr (value_to_ip (2 ^ k * q) @ ''/'' @ str_nat (32 - k))"
      using i(2) unfolding k_def[symmetric] q_def[symmetric] k(2) .
    have sp: "py_split (CHR ''/'') (value_to_ip (2 ^ k * q) @ ''/'' @ str_nat (32 - k))
        = [value_to_ip (2 ^ k * q), str_nat (32 - k)]"
      by (rule parse_back(1)[OF P n])
    have r: "ip_cidr_to_ip_value_range (value_to_ip (2 ^ k * q) @ ''/'' @ str_nat (32 - k))
        = Inr (2 ^ k * q, 2 ^ k * q + 2 ^ k - 1)"
      using parse_back(2)[OF P n] unfolding k(3) qq .
    have pi: "py_int (str_nat (32 - k)) = Some (32 - int k)"
      using k(1) by (simp add: py_int_str_nat of_nat_diff)
    have d: "\<forall>a\<in>set A. the_value a div 2 ^ k = q"
      using i(3) unfolding k_def[symmetric] q_def[symmetric] set_map by blast
    have df: "\<exists>x\<in>set A. \<exists>y\<in>set A. bit (the_value x) (k - 1) \<noteq> bit (the_value y) (k - 1)"
      using i(4) unfolding any_differ_iff k(4) set_map by blast
    have last: "k = 0 \<or> (value_to_ip (2 ^ k * q) @ ''/'' @ str_nat (32 - k)
                         = value_to_ip (2 ^ k * q) @ ''/'' @ str_nat (32 - k)
                        \<and> q = the_value (hd A) div 2 ^ k
                        \<and> (\<exists>x\<in>set A. \<exists>y\<in>set A. bit (the_value x) (k - 1) \<noteq> bit (the_value y) (k - 1)))"
      using df q_def by blast
    have ne: "(\<forall>a\<in>set A. \<forall>b\<in>set A. the_value a = the_value b)
        \<longrightarrow> value_to_ip (2 ^ k * q) @ ''/'' @ str_nat (32 - k) = hd A @ ''/32''"
      using False by blast
    show ?thesis
      by (rule exI[of _ k], rule exI[of _ q],
          rule exI[of _ "value_to_ip (2 ^ k * q) @ ''/'' @ str_nat (32 - k)"],
          rule exI[of _ "value_to_ip (2 ^ k * q)"], rule exI[of _ "str_nat (32 - k)"])
        (intro conjI k(1) c sp pi r d ne last canonical_imp_valid value_to_ip_canonical
          str_nat_not_Nil str_nat_digits digits_value_str_nat)
  qed
qed









section \<open>\<open>get_ip_cidr_from_ips\<close> on the documented examples\<close>

text \<open>
  C4, as the code has it. The three addresses 192.168.43.0, 192.168.44.0 and 192.168.45.0
  agree on their first 21 bits (43, 44 and 45 share the five leading bits 00101 of the
  third octet), so the covering block is 192.168.40.0/21; the other two results are
  1.2.3.4/32 and 0.0.0.0/0.
\<close>

theorem get_ip_cidr_from_ips_examples:
  "get_ip_cidr_from_ips [''192.168.43.0'', ''192.168.44.0'', ''192.168.45.0''] = Inr ''192.168.40.0/21''
   \<and> get_ip_cidr_from_ips [''1.2.3.4'', ''1.2.3.4''] = Inr ''1.2.3.4/32''
   \<and> get_ip_cidr_from_ips [''0.0.0.0'', ''224.255.255.255''] = Inr ''0.0.0.0/0''"
  by code_simp

text \<open>The first example does not give the block 192.168.32.0/19.\<close>

theorem get_ip_cidr_from_ips_counterexample:
  "get_ip_cidr_from_ips [''192.168.43.0'', ''192.168.44.0'', ''192.168.45.0''] \<noteq> Inr ''192.168.32.0/19''"
  by code_simp

section \<open>The sweep of \<open>consolidate_ip_ranges\<close>\<close>

lemma valid_rangeD:
  assumes "valid_range r"
  shows "get_value (fst r) = Inr (range_low r)" "get_value (snd r) = Inr (range_high r)"
    "range_low r \<le> range_high r"
proof -
  have v: "valid_dotted_quad (fst r)" "valid_dotted_quad (snd r)"
    using assms by (simp_all add: valid_range_def)
  show "get_value (fst r) = Inr (range_low r)"
    unfolding range_low_def by (rule get_value_spec(1)[OF v(1)])
  show "get_value (snd r) = Inr (range_high r)"
    unfolding range_high_def by (rule get_value_spec(1)[OF v(2)])
  show "range_low r \<le> range_high r" using assms by (simp add: valid_range_def)
qed

text \<open>On ranges of dotted quads the comparator is the difference of the lower values.\<close>

lemma compare_valid:
  assumes "valid_range a" "valid_range b"
  shows "compare_ip_address_ranges a b = Inr (range_low a - range_low b)"
  using valid_rangeD[OF assms(1)] valid_rangeD[OF assms(2)]
  by (simp add: compare_ip_address_ranges_def)

lemma overlap_valid:
  assumes "valid_range a" "valid_range b"
  shows "ip_ranges_overlap a b = Inr (range_high a \<ge> range_low b \<and> range_high b \<ge> range_low a)"
  using valid_rangeD[OF assms(1)] valid_rangeD[OF assms(2)]
  by (simp add: ip_ranges_overlap_def)

lemma combine_valid:
  assumes "valid_range a" "valid_range b"
  shows "\<exists>c. combine_ip_ranges a b = Inr c \<and> valid_range c
           \<and> range_low c = min (range_low a) (range_low b)
           \<and> range_high c = max (range_high a) (range_high b)"
proof -
  note da = valid_rangeD[OF assms(1)] and db = valid_rangeD[OF assms(2)]
  let ?c = "(if range_low a < range_low b then fst a else fst b,
             if range_high a > range_high b then snd a else snd b)"
  have eq: "combine_ip_ranges a b = Inr ?c"
    by (simp add: combine_ip_ranges_def da db)
  have lo: "range_low ?c = min (range_low a) (range_low b)"
    by (simp add: range_low_def min_def)
  have hi: "range_high ?c = max (range_high a) (range_high b)"
    by (simp add: range_high_def max_def)
  have "valid_dotted_quad (fst ?c)" "valid_dotted_quad (snd ?c)"
    using assms by (simp_all add: valid_range_def)
  moreover have "range_low ?c \<le> range_high ?c"
    unfolding lo hi using da(3) db(3) by simp
  ultimately have "valid_range ?c" unfolding valid_range_def by blast
  then show ?thesis using eq lo hi by blast
qed

subsection \<open>The sort\<close>

lemma insort_cmp_valid:
  assumes "valid_range x" "\<forall>r\<in>set ys. valid_range r" "sorted (map range_low ys)"
  shows "\<exists>zs. insort_cmp x ys = Inr zs \<and> sorted (map range_low zs) \<and> set zs = insert x (set ys)"
  using assms(2,3)
proof (induction ys)
  case Nil
  then show ?case by simp
next
  case (Cons y ys)
  have vy: "valid_range y" using Cons.prems(1) by simp
  have c: "compare_ip_address_ranges x y = Inr (range_low x - range_low y)"
    by (rule compare_valid[OF assms(1) vy])
  show ?case
  proof (cases "range_low x - range_low y < 0")
    case True
    then have "insort_cmp x (y # ys) = Inr (x # y # ys)" by (simp add: c)
    moreover have "sorted (map range_low (x # y # ys))"
      using True Cons.prems(2) by auto
    ultimately show ?thesis by auto
  next
    case False
    obtain zs where zs: "insort_cmp x ys = Inr zs" "sorted (map range_low zs)"
      "set zs = insert x (set ys)"
      using Cons.IH Cons.prems by auto
    have "insort_cmp x (y # ys) = Inr (y # zs)" using False by (simp add: c zs(1))
    moreover have "sorted (map range_low (y # zs))"
      using False zs(2,3) Cons.prems(2) by auto
    moreover have "set (y # zs) = insert x (set (y # ys))" using zs(3) by auto
    ultimately show ?thesis by blast
  qed
qed

lemma sort_loop_valid:
  assumes "\<forall>r\<in>set xs. valid_range r" "\<forall>r\<in>set acc. valid_range r" "sorted (map range_low acc)"
  shows "\<exists>s. sort_loop xs acc = Inr s \<and> sorted (map range_low s) \<and> set s = set xs \<union> set acc"
  using assms
proof (induction xs arbitrary: acc)
  case Nil
  then show ?case by simp
next
  case (Cons x xs)
  have vx: "valid_range x" using Cons.prems(1) by simp
  obtain zs where zs: "insort_cmp x acc = Inr zs" "sorted (map range_low zs)"
    "set zs = insert x (set acc)"
    using insort_cmp_valid[OF vx Cons.prems(2,3)] by blast
  have "\<exists>s. sort_loop xs zs = Inr s \<and> sorted (map range_low s) \<and> set s = set xs \<union> set zs"
    by (rule Cons.IH) (use Cons.prems zs vx in auto)
  then show ?case using zs(1,3) by auto
qed

lemma sort_valid:
  assumes "\<forall>r\<in>set rs. valid_range r"
  shows "\<exists>s. sort_ip_address_ranges rs = Inr s \<and> sorted (map range_low s) \<and> set s = set rs"
  using sort_loop_valid[OF assms, of "[]"] by (simp add: sort_ip_address_ranges_def)

subsection \<open>The sweep\<close>

lemma separated_snoc:
  "separated (xs @ [a]) \<longleftrightarrow> separated xs \<and> (xs = [] \<or> range_high (last xs) < range_low a)"
  by (induction xs rule: separated.induct) auto

lemma covered_simps:
  "covered [] = {}"
  "covered (r # rs) = {v. covers r v} \<union> covered rs"
  "covered (xs @ ys) = covered xs \<union> covered ys"
  by (auto simp: covered_def)

lemma within_refl: "within r r" by (simp add: within_def)

lemma within_trans: "within a b \<Longrightarrow> within b c \<Longrightarrow> within a c"
  by (simp add: within_def)

lemma welded_self: "r \<in> set S \<Longrightarrow> welded S r"
  unfolding welded_def spans_def covers_def by force

lemma welded_combine:
  assumes "welded S l" "r \<in> set S" "range_low l \<le> range_low r" "range_low r \<le> range_high l"
    "range_low c = range_low l" "range_high c = max (range_high r) (range_high l)"
  shows "welded S c"
  unfolding welded_def
proof (intro allI impI)
  fix v assume v: "range_low c \<le> v \<and> v < range_high c"
  show "\<exists>x\<in>set S. spans x v"
  proof (cases "v < range_high l")
    case True
    then show ?thesis using assms(1,5) v unfolding welded_def by simp
  next
    case False
    have hr: "v < range_high r"
      using v False unfolding assms(6) by (auto simp: max_def split: if_splits)
    have "range_low r \<le> v" using False assms(4) by linarith
    then have "spans r v" using hr by (simp add: spans_def covers_def)
    then show ?thesis using assms(2) by blast
  qed
qed

lemma consolidate_loop_correct:
  assumes "\<forall>r\<in>set rest. valid_range r" "\<forall>r\<in>set acc. valid_range r"
    "sorted (map range_low rest)" "separated acc"
    "acc \<noteq> [] \<longrightarrow> (\<forall>r\<in>set rest. range_low (last acc) \<le> range_low r)"
    "set rest \<subseteq> set S" "\<forall>r\<in>set acc. welded S r"
  shows "\<exists>out. consolidate_loop rest acc = Inr out \<and> (\<forall>r\<in>set out. valid_range r)
           \<and> separated out \<and> covered out = covered acc \<union> covered rest
           \<and> (\<forall>r\<in>set acc \<union> set rest. \<exists>s\<in>set out. within r s)
           \<and> (\<forall>r\<in>set out. welded S r)"
  using assms
proof (induction rest arbitrary: acc)
  case Nil
  then show ?case by (auto simp: covered_simps intro: within_refl)
next
  case (Cons r rest)
  have vr: "valid_range r" and vrest: "\<forall>x\<in>set rest. valid_range x"
    and srt: "sorted (map range_low rest)" and rle: "\<forall>x\<in>set rest. range_low r \<le> range_low x"
    and rS: "r \<in> set S" and restS: "set rest \<subseteq> set S"
    using Cons.prems by auto
  show ?case
  proof (cases "acc = []")
    case True
    have "\<exists>out. consolidate_loop rest [r] = Inr out \<and> (\<forall>x\<in>set out. valid_range x)
           \<and> separated out \<and> covered out = covered [r] \<union> covered rest
           \<and> (\<forall>x\<in>set [r] \<union> set rest. \<exists>s\<in>set out. within x s)
           \<and> (\<forall>x\<in>set out. welded S x)"
      by (rule Cons.IH) (use vr vrest srt rle restS welded_self[OF rS] in auto)
    then show ?thesis using True by (auto simp: covered_simps)
  next
    case False
    then obtain bl l where acc: "acc = bl @ [l]"
      by (metis rev_exhaust)
    have vl: "valid_range l" and vbl: "\<forall>x\<in>set bl. valid_range x"
      and sepbl: "separated bl" and blsep: "bl = [] \<or> range_high (last bl) < range_low l"
      and lr: "range_low l \<le> range_low r"
      and wl: "welded S l" and wbl: "\<forall>x\<in>set bl. welded S x"
      using Cons.prems acc by (auto simp: separated_snoc)
    note dr = valid_rangeD[OF vr] and dl = valid_rangeD[OF vl]
    show ?thesis
    proof (cases "range_high l \<ge> range_low r")
      case True
      obtain c where c: "combine_ip_ranges r l = Inr c" "valid_range c"
        "range_low c = min (range_low r) (range_low l)"
        "range_high c = max (range_high r) (range_high l)"
        using combine_valid[OF vr vl] by blast
      have lowc: "range_low c = range_low l" using c(3) lr by simp
      have wc: "welded S c" by (rule welded_combine[OF wl rS lr True lowc c(4)])
      have "\<exists>out. consolidate_loop rest (bl @ [c]) = Inr out \<and> (\<forall>x\<in>set out. valid_range x)
           \<and> separated out \<and> covered out = covered (bl @ [c]) \<union> covered rest
           \<and> (\<forall>x\<in>set (bl @ [c]) \<union> set rest. \<exists>s\<in>set out. within x s)
           \<and> (\<forall>x\<in>set out. welded S x)"
        by (rule Cons.IH)
          (use c(2) vbl vrest srt rle sepbl blsep lowc lr restS wc wbl in \<open>auto simp: separated_snoc\<close>)
      then obtain out where out: "consolidate_loop rest (bl @ [c]) = Inr out"
        "\<forall>x\<in>set out. valid_range x" "separated out"
        "covered out = covered (bl @ [c]) \<union> covered rest"
        "\<forall>x\<in>set (bl @ [c]) \<union> set rest. \<exists>s\<in>set out. within x s"
        "\<forall>x\<in>set out. welded S x"
        by blast
      have step: "consolidate_loop (r # rest) acc = Inr out"
      proof -
        have "range_low l \<le> range_high r" using lr dr(3) by simp
        then show ?thesis
          using acc True c(1) out(1) by (simp add: overlap_valid[OF vr vl])
      qed
      have cov: "{v. covers c v} = {v. covers l v} \<union> {v. covers r v}"
        using True lr dr dl c(3,4) by (auto simp: covers_def)
      have cs: "\<exists>s\<in>set out. within c s" using out(5) by auto
      have wlc: "within l c" and wrc: "within r c"
        using c(3,4) by (auto simp: within_def)
      have "\<exists>s\<in>set out. within l s" "\<exists>s\<in>set out. within r s"
        using cs wlc wrc by (blast intro: within_trans)+
      then show ?thesis
        using step out acc cov by (auto simp: covered_simps)
    next
      case False
      have "\<exists>out. consolidate_loop rest (acc @ [r]) = Inr out \<and> (\<forall>x\<in>set out. valid_range x)
           \<and> separated out \<and> covered out = covered (acc @ [r]) \<union> covered rest
           \<and> (\<forall>x\<in>set (acc @ [r]) \<union> set rest. \<exists>s\<in>set out. within x s)
           \<and> (\<forall>x\<in>set out. welded S x)"
      proof (rule Cons.IH)
        show "\<forall>x\<in>set rest. valid_range x" by (rule vrest)
        show "\<forall>x\<in>set (acc @ [r]). valid_range x" using Cons.prems(2) vr by simp
        show "sorted (map range_low rest)" by (rule srt)
        have "separated acc" by (rule Cons.prems(4))
        moreover have "range_high (last acc) < range_low r" using False acc by simp
        ultimately show "separated (acc @ [r])" unfolding separated_snoc by simp
        show "acc @ [r] \<noteq> [] \<longrightarrow> (\<forall>x\<in>set rest. range_low (last (acc @ [r])) \<le> range_low x)"
          using rle by simp
        show "set rest \<subseteq> set S" by (rule restS)
        show "\<forall>x\<in>set (acc @ [r]). welded S x"
          using Cons.prems(7) welded_self[OF rS] by simp
      qed
      moreover have "consolidate_loop (r # rest) acc = consolidate_loop rest (acc @ [r])"
        using acc False by (simp add: overlap_valid[OF vr vl])
      ultimately show ?thesis by (auto simp: covered_simps)
    qed
  qed
qed

lemma separated_head:
  assumes "\<forall>r\<in>set (a # rs). valid_range r" "separated (a # rs)"
  shows "\<forall>x\<in>set rs. range_high a < range_low x"
  using assms
proof (induction rs arbitrary: a)
  case Nil
  then show ?case by simp
next
  case (Cons b rs)
  have ab: "range_high a < range_low b" and sb: "separated (b # rs)"
    using Cons.prems(2) by auto
  have "range_low b \<le> range_high b"
    using Cons.prems(1) valid_rangeD(3) by simp
  moreover have "\<forall>x\<in>set rs. range_high b < range_low x"
    using Cons.IH[of b] Cons.prems(1) sb by simp
  ultimately show ?case using ab by fastforce
qed

lemma separated_tail: "separated (a # rs) \<Longrightarrow> separated rs"
  by (cases rs) auto

lemma separated_nth:
  assumes "\<forall>r\<in>set out. valid_range r" "separated out" "i < j" "j < length out"
  shows "range_high (out ! i) < range_low (out ! j)"
  using assms
proof (induction out arbitrary: i j)
  case Nil
  then show ?case by simp
next
  case (Cons a rs)
  obtain j' where j: "j = Suc j'" using Cons.prems(3) by (cases j) auto
  show ?case
  proof (cases i)
    case 0
    have "rs ! j' \<in> set rs" using Cons.prems(4) j by simp
    then show ?thesis
      using separated_head[OF Cons.prems(1,2)] 0 j by simp
  next
    case (Suc i')
    have "range_high (rs ! i') < range_low (rs ! j')"
      by (rule Cons.IH) (use Cons.prems Suc j separated_tail in auto)
    then show ?thesis using Suc j by simp
  qed
qed

lemma consolidate_valid_result:
  assumes "\<forall>r\<in>set R. valid_range r"
  shows "\<exists>out. consolidate_ip_ranges R = Inr out \<and> (\<forall>r\<in>set out. valid_range r)
           \<and> separated out \<and> covered out = covered R
           \<and> (\<forall>r\<in>set R. \<exists>s\<in>set out. within r s)
           \<and> (\<forall>r\<in>set out. welded R r)"
proof -
  obtain S where S: "sort_ip_address_ranges R = Inr S" "sorted (map range_low S)" "set S = set R"
    using sort_valid[OF assms] by blast
  have "\<exists>out. consolidate_loop S [] = Inr out \<and> (\<forall>r\<in>set out. valid_range r)
           \<and> separated out \<and> covered out = covered [] \<union> covered S
           \<and> (\<forall>r\<in>set [] \<union> set S. \<exists>s\<in>set out. within r s)
           \<and> (\<forall>r\<in>set out. welded R r)"
    by (rule consolidate_loop_correct) (use assms S in auto)
  moreover have "covered S = covered R" by (simp add: covered_def S(3))
  ultimately show ?thesis
    by (simp add: consolidate_ip_ranges_def S(1,3) covered_simps)
qed

text \<open>
  C1. For every list of ranges of dotted quads whose lower value is not above the upper
  value, \<open>consolidate_ip_ranges\<close> returns ranges of the same kind that are sorted ascending
  by the value of the lower bound, pairwise without a common address value, covering
  exactly the address values the input covers, and every input range lies inside exactly
  one output range. Values are those of \<open>spec_address_value\<close>.
\<close>

theorem consolidate_ip_ranges_merge:
  assumes "\<forall>r\<in>set R. valid_range r"
  shows "\<exists>out. consolidate_ip_ranges R = Inr out
           \<and> (\<forall>r\<in>set out. valid_range r)
           \<and> sorted (map range_low out)
           \<and> (\<forall>i j v. i < j \<and> j < length out \<longrightarrow> \<not> (covers (out ! i) v \<and> covers (out ! j) v))
           \<and> covered out = covered R
           \<and> (\<forall>r\<in>set R. \<exists>!j. j < length out \<and> within r (out ! j))"
proof -
  obtain out where out: "consolidate_ip_ranges R = Inr out" "\<forall>r\<in>set out. valid_range r"
    "separated out" "covered out = covered R" "\<forall>r\<in>set R. \<exists>s\<in>set out. within r s"
    using consolidate_valid_result[OF assms] by blast
  have apart: "range_high (out ! i) < range_low (out ! j)" if "i < j" "j < length out" for i j
    using separated_nth[OF out(2,3) that] .
  have ok: "range_low (out ! i) \<le> range_high (out ! i)" if "i < length out" for i
    using out(2) that valid_rangeD(3) by simp
  have "sorted (map range_low out)"
    unfolding sorted_iff_nth_mono_less
  proof (intro allI impI)
    fix i j assume "i < j" "j < length (map range_low out)"
    then have "range_high (out ! i) < range_low (out ! j)" "range_low (out ! i) \<le> range_high (out ! i)"
      using apart[of i j] ok[of i] by auto
    then show "map range_low out ! i \<le> map range_low out ! j"
      using \<open>i < j\<close> \<open>j < length (map range_low out)\<close> by simp
  qed
  moreover have "\<forall>i j v. i < j \<and> j < length out \<longrightarrow> \<not> (covers (out ! i) v \<and> covers (out ! j) v)"
    using apart by (fastforce simp: covers_def)
  moreover have "\<forall>r\<in>set R. \<exists>!j. j < length out \<and> within r (out ! j)"
  proof
    fix r assume r: "r \<in> set R"
    then obtain s where "s \<in> set out" "within r s" using out(5) by blast
    then obtain j where j: "j < length out" "within r (out ! j)"
      by (auto simp: in_set_conv_nth)
    have rr: "range_low r \<le> range_high r" using assms r valid_rangeD(3) by blast
    have "k = j" if k: "k < length out" "within r (out ! k)" for k
    proof (rule ccontr)
      assume "k \<noteq> j"
      then consider "k < j" | "j < k" by linarith
      then show False
      proof cases
        case 1
        then show ?thesis using apart[of k j] j k rr by (simp add: within_def)
      next
        case 2
        then show ?thesis using apart[of j k] j k rr by (simp add: within_def)
      qed
    qed
    then show "\<exists>!j. j < length out \<and> within r (out ! j)" using j by blast
  qed
  ultimately show ?thesis using out(1,2,4) by blast
qed

theorem consolidate_ip_ranges_merge_witness:
  "list_all valid_range [(''0.0.0.5'', ''0.0.0.9''), (''0.0.0.1'', ''0.0.0.5''), (''0.0.0.10'', ''0.0.0.12'')]
   \<and> (\<exists>out. consolidate_ip_ranges [(''0.0.0.5'', ''0.0.0.9''), (''0.0.0.1'', ''0.0.0.5''), (''0.0.0.10'', ''0.0.0.12'')] = Inr out
           \<and> list_all valid_range out
           \<and> sorted (map range_low out)
           \<and> (\<forall>i j v. i < j \<and> j < length out \<longrightarrow> \<not> (covers (out ! i) v \<and> covers (out ! j) v))
           \<and> covered out = covered [(''0.0.0.5'', ''0.0.0.9''), (''0.0.0.1'', ''0.0.0.5''), (''0.0.0.10'', ''0.0.0.12'')]
           \<and> (\<forall>r\<in>set [(''0.0.0.5'', ''0.0.0.9''), (''0.0.0.1'', ''0.0.0.5''), (''0.0.0.10'', ''0.0.0.12'')]. \<exists>!j. j < length out \<and> within r (out ! j)))"
proof -
  have h: "list_all valid_range [(''0.0.0.5'', ''0.0.0.9''), (''0.0.0.1'', ''0.0.0.5''), (''0.0.0.10'', ''0.0.0.12'')]"
    by code_simp
  then have h': "\<forall>r\<in>set [(''0.0.0.5'', ''0.0.0.9''), (''0.0.0.1'', ''0.0.0.5''), (''0.0.0.10'', ''0.0.0.12'')]. valid_range r"
    unfolding list_all_iff .
  show ?thesis using h consolidate_ip_ranges_merge[OF h'] unfolding list_all_iff by blast
qed

text \<open>
  C3, as the code has it. The output ranges are ranges of dotted quads that lie strictly
  apart: of two output ranges the earlier one ends below the start of the later one. And
  an output range holds two neighbouring address values \<open>v\<close> and \<open>v + 1\<close> only if a single
  input range holds both. So ranges are merged when they share an address, and ranges
  that only touch (an upper bound plus one equals the next lower bound, with no range
  across) stay separate: they do not pass the closed interval test of
  \<open>ip_ranges_overlap\<close>.
\<close>

theorem consolidate_ip_ranges_apart:
  assumes "\<forall>r\<in>set R. valid_range r"
  shows "\<exists>out. consolidate_ip_ranges R = Inr out
           \<and> (\<forall>r\<in>set out. valid_range r)
           \<and> (\<forall>i j. i < j \<and> j < length out \<longrightarrow> range_high (out ! i) < range_low (out ! j))
           \<and> (\<forall>r\<in>set out. \<forall>v. spans r v \<longrightarrow> (\<exists>x\<in>set R. spans x v))"
proof -
  obtain out where out: "consolidate_ip_ranges R = Inr out" "\<forall>r\<in>set out. valid_range r"
    "separated out" "\<forall>r\<in>set out. welded R r"
    using consolidate_valid_result[OF assms] by blast
  have "\<forall>i j. i < j \<and> j < length out \<longrightarrow> range_high (out ! i) < range_low (out ! j)"
    using separated_nth[OF out(2,3)] by blast
  moreover have "\<forall>r\<in>set out. \<forall>v. spans r v \<longrightarrow> (\<exists>x\<in>set R. spans x v)"
  proof (intro ballI allI impI)
    fix r v assume r: "r \<in> set out" and "spans r v"
    then have "range_low r \<le> v \<and> v < range_high r" by (simp add: spans_def covers_def)
    then show "\<exists>x\<in>set R. spans x v" using out(4) r unfolding welded_def by blast
  qed
  ultimately show ?thesis using out(1,2) by blast
qed

theorem consolidate_ip_ranges_apart_witness:
  "list_all valid_range [(''0.0.0.5'', ''0.0.0.9''), (''0.0.0.1'', ''0.0.0.5''), (''0.0.0.10'', ''0.0.0.12'')]
   \<and> (\<exists>out. consolidate_ip_ranges [(''0.0.0.5'', ''0.0.0.9''), (''0.0.0.1'', ''0.0.0.5''), (''0.0.0.10'', ''0.0.0.12'')] = Inr out
           \<and> list_all valid_range out
           \<and> (\<forall>i j. i < j \<and> j < length out \<longrightarrow> range_high (out ! i) < range_low (out ! j))
           \<and> (\<forall>r\<in>set out. \<forall>v. spans r v \<longrightarrow>
                (\<exists>x\<in>set [(''0.0.0.5'', ''0.0.0.9''), (''0.0.0.1'', ''0.0.0.5''), (''0.0.0.10'', ''0.0.0.12'')]. spans x v)))"
proof -
  have h: "list_all valid_range [(''0.0.0.5'', ''0.0.0.9''), (''0.0.0.1'', ''0.0.0.5''), (''0.0.0.10'', ''0.0.0.12'')]"
    by code_simp
  then have h': "\<forall>r\<in>set [(''0.0.0.5'', ''0.0.0.9''), (''0.0.0.1'', ''0.0.0.5''), (''0.0.0.10'', ''0.0.0.12'')]. valid_range r"
    unfolding list_all_iff .
  show ?thesis using h consolidate_ip_ranges_apart[OF h'] unfolding list_all_iff by blast
qed

text \<open>Two touching ranges are returned unmerged, with no gap between them.\<close>

theorem touching_ranges_counterexample:
  "consolidate_ip_ranges [(''192.168.0.0'', ''192.168.0.255''), (''192.168.1.0'', ''192.168.1.255'')]
     = Inr [(''192.168.0.0'', ''192.168.0.255''), (''192.168.1.0'', ''192.168.1.255'')]
   \<and> range_high (''192.168.0.0'', ''192.168.0.255'') < range_low (''192.168.1.0'', ''192.168.1.255'')
   \<and> \<not> range_high (''192.168.0.0'', ''192.168.0.255'') + 1 < range_low (''192.168.1.0'', ''192.168.1.255'')"
  by code_simp

section \<open>The pipeline \<open>consolidate_ip_cidrs\<close>\<close>

lemma the_value_value_to_ip: "0 \<le> v \<Longrightarrow> v < 2 ^ 32 \<Longrightarrow> the_value (value_to_ip v) = v"
  by (simp add: the_value_def get_value_value_to_ip)

lemma the_value_spec: "valid_dotted_quad a \<Longrightarrow> the_value a = spec_address_value a"
  by (simp add: the_value_def get_value_spec(1))

lemma value_to_ip_valid: "valid_dotted_quad (value_to_ip v)"
  by (rule canonical_imp_valid) (rule value_to_ip_canonical)

lemma spec_value_value_to_ip:
  assumes "0 \<le> v" "v < 2 ^ 32"
  shows "spec_address_value (value_to_ip v) = v"
  using the_value_spec[OF value_to_ip_valid, of v] the_value_value_to_ip[OF assms] by simp

lemma block_rangeD:
  assumes "block_range r"
  shows "\<exists>k q. k \<le> 32 \<and> range_low r = 2 ^ k * q \<and> range_high r = 2 ^ k * q + 2 ^ k - 1
           \<and> 0 \<le> range_low r \<and> range_high r < 2 ^ 32
           \<and> r = (value_to_ip (range_low r), value_to_ip (range_high r))"
    and "valid_range r"
proof -
  obtain k q where b: "k \<le> 32" "0 \<le> 2 ^ k * q" "2 ^ k * q + 2 ^ k - 1 < 2 ^ 32"
    "r = (value_to_ip (2 ^ k * q), value_to_ip (2 ^ k * q + 2 ^ k - 1))"
    using assms unfolding block_range_def by blast
  have p: "(0::int) < 2 ^ k" by simp
  have lo: "0 \<le> 2 ^ k * q" "2 ^ k * q < 2 ^ 32" using b(2,3) p by linarith+
  have hi: "0 \<le> 2 ^ k * q + 2 ^ k - 1" "2 ^ k * q + 2 ^ k - 1 < 2 ^ 32" using b(2,3) p by linarith+
  have rl: "range_low r = 2 ^ k * q"
    unfolding range_low_def b(4) fst_conv by (rule spec_value_value_to_ip[OF lo])
  have rh: "range_high r = 2 ^ k * q + 2 ^ k - 1"
    unfolding range_high_def b(4) snd_conv by (rule spec_value_value_to_ip[OF hi])
  have "valid_dotted_quad (fst r)" "valid_dotted_quad (snd r)"
    unfolding b(4) fst_conv snd_conv by (rule value_to_ip_valid)+
  moreover have "range_low r \<le> range_high r" unfolding rl rh using p by simp
  ultimately show "valid_range r" unfolding valid_range_def by blast
  have "r = (value_to_ip (range_low r), value_to_ip (range_high r))"
    unfolding rl rh by (rule b(4))
  then show "\<exists>k q. k \<le> 32 \<and> range_low r = 2 ^ k * q \<and> range_high r = 2 ^ k * q + 2 ^ k - 1
           \<and> 0 \<le> range_low r \<and> range_high r < 2 ^ 32
           \<and> r = (value_to_ip (range_low r), value_to_ip (range_high r))"
    using b(1) rl rh lo(1) hi(2) by metis
qed

lemma cidr_block_range:
  assumes "valid_cidr c"
  shows "\<exists>r. ip_cidr_to_ip_range c = Inr r \<and> block_range r
           \<and> spec_cidr_range c = (range_low r, range_high r)"
proof -
  obtain p ms m w where d: "py_split (CHR ''/'') c = [p, ms]" "py_int ms = Some m"
    "0 \<le> m" "m \<le> 32" "get_value p = Inr w" "0 \<le> w" "w < 2 ^ 32"
    using valid_cidrD[OF assms] by blast
  define k where "k = nat (32 - m)"
  define q where "q = w div 2 ^ k"
  have k: "k \<le> 32" using d(3) by (simp add: k_def)
  have vr: "ip_cidr_to_ip_value_range c = Inr (2 ^ k * q, 2 ^ k * q + 2 ^ k - 1)"
    unfolding k_def q_def by (rule value_range_block[OF d])
  then have sr: "spec_cidr_range c = (2 ^ k * q, 2 ^ k * q + 2 ^ k - 1)"
    using value_range_spec[OF assms] by simp
  note b = block_bounds[OF d(6,7) k, folded q_def]
  let ?r = "(value_to_ip (2 ^ k * q), value_to_ip (2 ^ k * q + 2 ^ k - 1))"
  have br: "block_range ?r" unfolding block_range_def using k b(1,4) by blast
  have r: "ip_cidr_to_ip_range c = Inr ?r" by (simp add: ip_cidr_to_ip_range_def vr)
  have p: "(0::int) < 2 ^ k" by simp
  have "range_low ?r = 2 ^ k * q"
    unfolding range_low_def fst_conv by (rule spec_value_value_to_ip) (use b p in linarith)+
  moreover have "range_high ?r = 2 ^ k * q + 2 ^ k - 1"
    unfolding range_high_def snd_conv by (rule spec_value_value_to_ip) (use b p in linarith)+
  ultimately show ?thesis using r br sr by metis
qed

lemma block_nested:
  fixes q1 q2 :: int
  assumes "k1 \<le> k2" "2 ^ k1 * q1 \<le> 2 ^ k2 * q2 + 2 ^ k2 - 1" "2 ^ k2 * q2 \<le> 2 ^ k1 * q1 + 2 ^ k1 - 1"
  shows "2 ^ k2 * q2 \<le> 2 ^ k1 * q1 \<and> 2 ^ k1 * q1 + 2 ^ k1 - 1 \<le> 2 ^ k2 * q2 + 2 ^ k2 - 1"
proof -
  define x where "x = max (2 ^ k1 * q1) (2 ^ k2 * q2)"
  have p: "(0::int) < 2 ^ k1" "(0::int) < 2 ^ k2" by simp_all
  have x1: "2 ^ k1 * q1 \<le> x \<and> x \<le> 2 ^ k1 * q1 + 2 ^ k1 - 1"
    unfolding x_def using assms(3) p by simp
  have x2: "2 ^ k2 * q2 \<le> x \<and> x \<le> 2 ^ k2 * q2 + 2 ^ k2 - 1"
    unfolding x_def using assms(2) p by simp
  have d1: "x div 2 ^ k1 = q1" using x1 by (simp only: in_block_iff)
  have d2: "x div 2 ^ k2 = q2" using x2 by (simp only: in_block_iff)
  have pw: "(2::int) ^ k2 = 2 ^ k1 * 2 ^ (k2 - k1)" using assms(1) by (simp flip: power_add)
  have up: "y div 2 ^ k2 = q2" if "y div 2 ^ k1 = q1" for y :: int
  proof -
    have "y div 2 ^ k2 = (y div 2 ^ k1) div 2 ^ (k2 - k1)"
      unfolding pw by (rule zdiv_zmult2_eq) simp
    also have "\<dots> = (x div 2 ^ k1) div 2 ^ (k2 - k1)" by (simp only: that d1)
    also have "\<dots> = x div 2 ^ k2"
      unfolding pw by (rule zdiv_zmult2_eq[symmetric]) simp
    finally show ?thesis by (simp only: d2)
  qed
  have l1: "(2 ^ k1 * q1) div 2 ^ k1 = q1" by simp
  have h1: "(2 ^ k1 * q1 + 2 ^ k1 - 1) div 2 ^ k1 = q1"
    using in_block_iff[of k1 q1 "2 ^ k1 * q1 + 2 ^ k1 - 1"] p by simp
  have "2 ^ k2 * q2 \<le> 2 ^ k1 * q1 \<and> 2 ^ k1 * q1 \<le> 2 ^ k2 * q2 + 2 ^ k2 - 1"
    using up[OF l1] by (simp only: in_block_iff)
  moreover have "2 ^ k2 * q2 \<le> 2 ^ k1 * q1 + 2 ^ k1 - 1 \<and> 2 ^ k1 * q1 + 2 ^ k1 - 1 \<le> 2 ^ k2 * q2 + 2 ^ k2 - 1"
    using up[OF h1] by (simp only: in_block_iff)
  ultimately show ?thesis by blast
qed

lemma blocks_laminar:
  assumes "block_range a" "block_range b"
    "range_low a \<le> range_high b" "range_low b \<le> range_high a"
  shows "within a b \<or> within b a"
proof -
  obtain k1 q1 where a: "range_low a = 2 ^ k1 * q1" "range_high a = 2 ^ k1 * q1 + 2 ^ k1 - 1"
    using block_rangeD(1)[OF assms(1)] by blast
  obtain k2 q2 where b: "range_low b = 2 ^ k2 * q2" "range_high b = 2 ^ k2 * q2 + 2 ^ k2 - 1"
    using block_rangeD(1)[OF assms(2)] by blast
  show ?thesis
  proof (cases "k1 \<le> k2")
    case True
    then have "within a b"
      unfolding within_def a b using block_nested[of k1 k2 q1 q2] assms(3,4) unfolding a b by blast
    then show ?thesis ..
  next
    case False
    then have "k2 \<le> k1" by simp
    then have "within b a"
      unfolding within_def a b using block_nested[of k2 k1 q2 q1] assms(3,4) unfolding a b by blast
    then show ?thesis ..
  qed
qed

lemma combine_blocks:
  assumes "block_range r" "block_range l"
    "range_low l \<le> range_high r" "range_low r \<le> range_high l"
  shows "combine_ip_ranges r l = Inr r \<or> combine_ip_ranges r l = Inr l"
proof -
  note vr = valid_rangeD[OF block_rangeD(2)[OF assms(1)]]
    and vl = valid_rangeD[OF block_rangeD(2)[OF assms(2)]]
  have er: "r = (value_to_ip (range_low r), value_to_ip (range_high r))"
    using block_rangeD(1)[OF assms(1)] by blast
  have el: "l = (value_to_ip (range_low l), value_to_ip (range_high l))"
    using block_rangeD(1)[OF assms(2)] by blast
  have c: "combine_ip_ranges r l
      = Inr (if range_low r < range_low l then fst r else fst l,
             if range_high r > range_high l then snd r else snd l)"
    by (simp add: combine_ip_ranges_def vr vl)
  have fr: "fst r = value_to_ip (range_low r)" "snd r = value_to_ip (range_high r)"
    using er by (metis fst_conv, metis snd_conv)
  have fl: "fst l = value_to_ip (range_low l)" "snd l = value_to_ip (range_high l)"
    using el by (metis fst_conv, metis snd_conv)
  from blocks_laminar[OF assms(2,1) assms(3,4)] show ?thesis
  proof
    assume "within l r"
    then have w: "range_low r \<le> range_low l" "range_high l \<le> range_high r"
      by (simp_all add: within_def)
    have "(if range_low r < range_low l then fst r else fst l) = fst r"
      using w(1) fr(1) fl(1) by (cases "range_low r = range_low l") auto
    moreover have "(if range_high r > range_high l then snd r else snd l) = snd r"
      using w(2) fr(2) fl(2) by (cases "range_high r = range_high l") auto
    ultimately have "combine_ip_ranges r l = Inr r" unfolding c by simp
    then show ?thesis ..
  next
    assume "within r l"
    then have w: "range_low l \<le> range_low r" "range_high r \<le> range_high l"
      by (simp_all add: within_def)
    have "(if range_low r < range_low l then fst r else fst l) = fst l"
      using w(1) by simp
    moreover have "(if range_high r > range_high l then snd r else snd l) = snd l"
      using w(2) by simp
    ultimately have "combine_ip_ranges r l = Inr l" unfolding c by simp
    then show ?thesis ..
  qed
qed

lemma consolidate_loop_blocks:
  assumes "\<forall>r\<in>set rest. block_range r" "\<forall>r\<in>set acc. block_range r"
    "consolidate_loop rest acc = Inr out"
  shows "\<forall>r\<in>set out. block_range r"
  using assms
proof (induction rest arbitrary: acc)
  case Nil
  then show ?case by simp
next
  case (Cons r rest)
  have br: "block_range r" and brest: "\<forall>x\<in>set rest. block_range x"
    using Cons.prems(1) by simp_all
  show ?case
  proof (cases "acc = []")
    case True
    then have "consolidate_loop rest [r] = Inr out" using Cons.prems(3) by simp
    then show ?thesis using Cons.IH[of "[r]"] brest br by simp
  next
    case False
    then have bl: "block_range (last acc)" using Cons.prems(2) by simp
    have ov: "ip_ranges_overlap r (last acc)
        = Inr (range_high r \<ge> range_low (last acc) \<and> range_high (last acc) \<ge> range_low r)"
      by (rule overlap_valid[OF block_rangeD(2)[OF br] block_rangeD(2)[OF bl]])
    show ?thesis
    proof (cases "range_high r \<ge> range_low (last acc) \<and> range_high (last acc) \<ge> range_low r")
      case True
      then have "\<exists>c. combine_ip_ranges r (last acc) = Inr c \<and> (c = r \<or> c = last acc)"
        using combine_blocks[OF br bl] by blast
      then obtain c where c: "combine_ip_ranges r (last acc) = Inr c" "c = r \<or> c = last acc"
        by blast
      have "ip_ranges_overlap r (last acc) = Inr True" using ov True by simp
      then have "consolidate_loop rest (butlast acc @ [c]) = Inr out"
        using Cons.prems(3) False c(1) by simp
      moreover have "\<forall>x\<in>set (butlast acc @ [c]). block_range x"
        using Cons.prems(2) c(2) br bl by (auto dest: in_set_butlastD)
      ultimately show ?thesis using Cons.IH[of "butlast acc @ [c]"] brest by blast
    next
      case False2: False
      then have "ip_ranges_overlap r (last acc) = Inr False" using ov by simp
      then have "consolidate_loop rest (acc @ [r]) = Inr out"
        using Cons.prems(3) False by simp
      moreover have "\<forall>x\<in>set (acc @ [r]). block_range x" using Cons.prems(2) br by simp
      ultimately show ?thesis using Cons.IH[of "acc @ [r]"] brest by blast
    qed
  qed
qed

lemma block_cover:
  assumes "block_range r"
  shows "\<exists>cidr. get_ip_cidr_from_ips [fst r, snd r] = Inr cidr
           \<and> spec_cidr_range cidr = (range_low r, range_high r)
           \<and> valid_cidr cidr"
proof -
  obtain k q where b: "k \<le> 32" "range_low r = 2 ^ k * q" "range_high r = 2 ^ k * q + 2 ^ k - 1"
    "0 \<le> range_low r" "range_high r < 2 ^ 32"
    "r = (value_to_ip (range_low r), value_to_ip (range_high r))"
    using block_rangeD(1)[OF assms] by blast
  have fs: "fst r = value_to_ip (range_low r)" "snd r = value_to_ip (range_high r)"
    using b(6) by (metis fst_conv, metis snd_conv)
  have vq: "valid_dotted_quad (fst r)" "valid_dotted_quad (snd r)"
    using fs value_to_ip_valid by simp_all
  have tv: "the_value (fst r) = range_low r" "the_value (snd r) = range_high r"
    using the_value_spec[OF vq(1)] the_value_spec[OF vq(2)]
    by (simp_all add: range_low_def range_high_def)
  have v: "\<forall>a\<in>set [fst r, snd r]. valid_dotted_quad a" using vq by simp
  have ne: "[fst r, snd r] \<noteq> []" by simp
  obtain k' q' cidr p ms where s: "k' \<le> 32" "get_ip_cidr_from_ips [fst r, snd r] = Inr cidr"
    "py_split (CHR ''/'') cidr = [p, ms]" "valid_dotted_quad p"
    "ms \<noteq> []" "list_all is_digit ms" "digits_value ms = 32 - k'"
    "ip_cidr_to_ip_value_range cidr = Inr (2 ^ k' * q', 2 ^ k' * q' + 2 ^ k' - 1)"
    "\<forall>a\<in>set [fst r, snd r]. the_value a div 2 ^ k' = q'"
    "k' = 0 \<or> (\<exists>x\<in>set [fst r, snd r]. \<exists>y\<in>set [fst r, snd r].
        bit (the_value x) (k' - 1) \<noteq> bit (the_value y) (k' - 1))"
    using cover_summary[OF ne v] by blast
  have d': "range_low r div 2 ^ k' = q'" "range_high r div 2 ^ k' = q'"
    using s(9) tv by simp_all
  have d: "range_low r div 2 ^ k = q" "range_high r div 2 ^ k = q"
  proof -
    show "range_low r div 2 ^ k = q" unfolding b(2) by simp
    have "2 ^ k * q \<le> range_high r \<and> range_high r \<le> 2 ^ k * q + 2 ^ k - 1"
      unfolding b(3) by simp
    then show "range_high r div 2 ^ k = q" by (simp only: in_block_iff)
  qed
  have le1: "k \<le> k'"
  proof -
    have "2 ^ k' * q' \<le> range_low r \<and> range_low r \<le> 2 ^ k' * q' + 2 ^ k' - 1"
      using d'(1) by (simp only: in_block_iff)
    moreover have "2 ^ k' * q' \<le> range_high r \<and> range_high r \<le> 2 ^ k' * q' + 2 ^ k' - 1"
      using d'(2) by (simp only: in_block_iff)
    ultimately have "range_high r - range_low r \<le> 2 ^ k' - 1" by linarith
    moreover have "range_high r - range_low r = 2 ^ k - 1" unfolding b(2,3) by simp
    ultimately have "(2::int) ^ k \<le> 2 ^ k'" by linarith
    then show ?thesis by (rule power_le_imp_le_exp[rotated]) simp
  qed
  have le2: "k' \<le> k"
  proof (rule ccontr)
    assume "\<not> k' \<le> k"
    then have lt: "k \<le> k' - 1" "k' \<noteq> 0" by simp_all
    have "bit (range_low r) (k' - 1) = bit (range_high r) (k' - 1)"
      by (rule same_div_same_bit[OF _ lt(1)]) (simp only: d)
    then show False using s(10) lt(2) tv by auto
  qed
  have kk: "k' = k" using le1 le2 by simp
  have qq: "q' = q" using d'(1) d(1) unfolding kk by simp
  have rng: "ip_cidr_to_ip_value_range cidr = Inr (range_low r, range_high r)"
    using s(8) unfolding kk qq b(2,3) .
  have vc: "valid_cidr cidr"
    unfolding valid_cidr_def using s(3,4,5,6,7) by simp
  have "spec_cidr_range cidr = (range_low r, range_high r)"
    using value_range_spec[OF vc] rng by simp
  then show ?thesis using s(2) vc by blast
qed

lemma map_err_all2:
  assumes "\<forall>x\<in>set xs. \<exists>y. f x = Inr y \<and> P x y"
  shows "\<exists>ys. map_err f xs = Inr ys \<and> list_all2 P xs ys"
  using assms
proof (induction xs)
  case Nil
  then show ?case by simp
next
  case (Cons x xs)
  obtain y where y: "f x = Inr y" "P x y" using Cons.prems by auto
  obtain ys where ys: "map_err f xs = Inr ys" "list_all2 P xs ys"
    using Cons by auto
  have "map_err f (x # xs) = Inr (y # ys)" using y(1) ys(1) by simp
  moreover have "list_all2 P (x # xs) (y # ys)" using y(2) ys(2) by simp
  ultimately show ?case by blast
qed

lemma same_cover:
  assumes "list_all2 (\<lambda>x y. \<forall>v. cx x v = cy y v) xs ys"
  shows "{v. \<exists>x\<in>set xs. cx x v} = {v. \<exists>y\<in>set ys. cy y v}"
  using assms by (induction rule: list_all2_induct) auto

lemma consolidate_blocks:
  assumes "\<forall>r\<in>set R. block_range r" "consolidate_ip_ranges R = Inr out"
  shows "\<forall>r\<in>set out. block_range r"
proof -
  have v: "\<forall>r\<in>set R. valid_range r" using assms(1) block_rangeD(2) by blast
  obtain S where S: "sort_ip_address_ranges R = Inr S" "set S = set R"
    using sort_valid[OF v] by blast
  have "consolidate_loop S [] = Inr out"
    using assms(2) by (simp add: consolidate_ip_ranges_def S(1))
  moreover have "\<forall>r\<in>set S. block_range r" using assms(1) S(2) by simp
  ultimately show ?thesis using consolidate_loop_blocks[of S "[]" out] by simp
qed

lemma list_all2_right:
  assumes "list_all2 P xs ys"
  shows "\<forall>y\<in>set ys. \<exists>x. P x y"
  using assms by (induction rule: list_all2_induct) auto

lemma cidr_covers_range:
  assumes "spec_cidr_range c = (range_low r, range_high r)"
  shows "cidr_covers c v = covers r v"
  by (simp add: cidr_covers_def covers_def assms)

text \<open>
  C5. For every list of well-formed CIDR strings, \<open>consolidate_ip_cidrs\<close> returns a list
  of well-formed CIDR strings whose ranges are pairwise disjoint and together cover
  exactly the address values the input CIDRs cover. The range of a CIDR string, on both
  sides, is the one of the specification, \<open>spec_cidr_range\<close>. (Blocks that overlap are
  nested, so each merged range is itself a block and its covering CIDR adds no address.)
\<close>

theorem consolidate_ip_cidrs_cover:
  assumes "\<forall>c\<in>set ip_cidrs. valid_cidr c"
  shows "\<exists>out. consolidate_ip_cidrs ip_cidrs = Inr out
           \<and> (\<forall>c\<in>set out. valid_cidr c)
           \<and> (\<forall>i j v. i < j \<and> j < length out
                \<longrightarrow> \<not> (cidr_covers (out ! i) v \<and> cidr_covers (out ! j) v))
           \<and> cidrs_covered out = cidrs_covered ip_cidrs"
proof -
  let ?P = "\<lambda>c r. block_range r \<and> spec_cidr_range c = (range_low r, range_high r)"
  have "\<forall>c\<in>set ip_cidrs. \<exists>r. ip_cidr_to_ip_range c = Inr r \<and> ?P c r"
    using assms cidr_block_range by blast
  then obtain ranges where ranges: "map_err ip_cidr_to_ip_range ip_cidrs = Inr ranges"
    "list_all2 ?P ip_cidrs ranges"
    using map_err_all2[of ip_cidrs ip_cidr_to_ip_range ?P] by blast
  have rb: "\<forall>r\<in>set ranges. block_range r"
    using list_all2_right[OF ranges(2)] by blast
  then have rv: "\<forall>r\<in>set ranges. valid_range r" using block_rangeD(2) by blast
  obtain merged where merged: "consolidate_ip_ranges ranges = Inr merged"
    "\<forall>r\<in>set merged. valid_range r" "separated merged" "covered merged = covered ranges"
    using consolidate_valid_result[OF rv] by blast
  have mb: "\<forall>r\<in>set merged. block_range r"
    by (rule consolidate_blocks[OF rb merged(1)])
  let ?Q = "\<lambda>r c. spec_cidr_range c = (range_low r, range_high r) \<and> valid_cidr c"
  have "\<forall>r\<in>set merged. \<exists>c. get_ip_cidr_from_ips [fst r, snd r] = Inr c \<and> ?Q r c"
    using mb block_cover by blast
  then obtain out where out:
    "map_err (\<lambda>r. get_ip_cidr_from_ips [fst r, snd r]) merged = Inr out"
    "list_all2 ?Q merged out"
    using map_err_all2[of merged "\<lambda>r. get_ip_cidr_from_ips [fst r, snd r]" ?Q] by blast
  have res: "consolidate_ip_cidrs ip_cidrs = Inr out"
    by (simp add: consolidate_ip_cidrs_def ranges(1) merged(1) out(1))
  have valid: "\<forall>c\<in>set out. valid_cidr c"
    using list_all2_right[OF out(2)] by blast
  have len: "length out = length merged" using out(2) by (simp add: list_all2_lengthD)
  have nth: "cidr_covers (out ! i) v = covers (merged ! i) v" if "i < length out" for i v
  proof -
    have "i < length merged" using that len by simp
    then have "?Q (merged ! i) (out ! i)" by (rule list_all2_nthD[OF out(2)])
    then show ?thesis using cidr_covers_range by blast
  qed
  have disj: "\<forall>i j v. i < j \<and> j < length out
      \<longrightarrow> \<not> (cidr_covers (out ! i) v \<and> cidr_covers (out ! j) v)"
  proof (intro allI impI)
    fix i j v
    assume a: "i < j \<and> j < length out"
    then have "range_high (merged ! i) < range_low (merged ! j)"
      using separated_nth[OF merged(2,3), of i j] len by simp
    then have "\<not> (covers (merged ! i) v \<and> covers (merged ! j) v)"
      by (auto simp: covers_def)
    then show "\<not> (cidr_covers (out ! i) v \<and> cidr_covers (out ! j) v)"
      using nth[of i v] nth[of j v] a by simp
  qed
  have "list_all2 (\<lambda>r c. \<forall>v. covers r v = cidr_covers c v) merged out"
    by (rule list_all2_mono[OF out(2)]) (simp add: cidr_covers_range)
  then have c1: "covered merged = cidrs_covered out"
    unfolding covered_def cidrs_covered_def by (rule same_cover)
  have "list_all2 (\<lambda>c r. \<forall>v. cidr_covers c v = covers r v) ip_cidrs ranges"
    by (rule list_all2_mono[OF ranges(2)]) (simp add: cidr_covers_range)
  then have c2: "cidrs_covered ip_cidrs = covered ranges"
    unfolding covered_def cidrs_covered_def by (rule same_cover)
  have "cidrs_covered out = cidrs_covered ip_cidrs"
    using c1 c2 merged(4) by simp
  then show ?thesis using res valid disj by blast
qed

theorem consolidate_ip_cidrs_cover_witness:
  "list_all valid_cidr [''192.168.0.0/24'', ''192.168.0.128/25'', ''10.3.2.1/8'']
   \<and> (\<exists>out. consolidate_ip_cidrs [''192.168.0.0/24'', ''192.168.0.128/25'', ''10.3.2.1/8''] = Inr out
           \<and> list_all valid_cidr out
           \<and> (\<forall>i j v. i < j \<and> j < length out
                \<longrightarrow> \<not> (cidr_covers (out ! i) v \<and> cidr_covers (out ! j) v))
           \<and> cidrs_covered out = cidrs_covered [''192.168.0.0/24'', ''192.168.0.128/25'', ''10.3.2.1/8''])"
proof -
  have h: "list_all valid_cidr [''192.168.0.0/24'', ''192.168.0.128/25'', ''10.3.2.1/8'']"
    by code_simp
  then have h': "\<forall>c\<in>set [''192.168.0.0/24'', ''192.168.0.128/25'', ''10.3.2.1/8'']. valid_cidr c"
    unfolding list_all_iff .
  show ?thesis
    using h consolidate_ip_cidrs_cover[OF h'] unfolding list_all_iff by blast
qed

section \<open>The pipeline on concrete inputs\<close>

text \<open>
  C2, as the code has it. The two adjacent /24 blocks end at 192.168.0.255 and start at
  192.168.1.0: they touch without sharing an address, \<open>ip_ranges_overlap\<close> is false for
  them, and the result has three blocks, sorted by lower bound.
\<close>

theorem consolidate_ip_cidrs_example:
  "consolidate_ip_cidrs [''192.168.0.0/24'', ''192.168.1.0/24'', ''10.0.0.0/8'']
     = Inr [''10.0.0.0/8'', ''192.168.0.0/24'', ''192.168.1.0/24'']"
  by code_simp

text \<open>The result does not have two blocks.\<close>

theorem consolidate_ip_cidrs_example_counterexample:
  "(case consolidate_ip_cidrs [''192.168.0.0/24'', ''192.168.1.0/24'', ''10.0.0.0/8''] of
      Inl e \<Rightarrow> 0 | Inr out \<Rightarrow> length out) = 3"
  by code_simp

text \<open>
  C8, as the code has it. On the empty list \<open>get_ip_cidr_from_ips\<close> raises: all of no
  values are equal, and \<open>ip_addrs[0]\<close> is an \<open>IndexError\<close>. \<open>consolidate_ip_cidrs\<close>
  raises nothing: it returns the empty list.
\<close>

theorem empty_input:
  "get_ip_cidr_from_ips [] = Inl IndexError \<and> consolidate_ip_cidrs [] = Inr []"
  by code_simp

text \<open>The pipeline does not raise on the empty list.\<close>

theorem empty_input_counterexample: "\<not> isl (consolidate_ip_cidrs [])"
  by code_simp

end
